theory Spec2Isabelle
  imports Main
begin

section \<open>Pay periods: the embedding of \<^verbatim>\<open>pay_periods.py\<close>\<close>

text \<open>
  The program is one method, \<^verbatim>\<open>PayPeriods.list\<close>, over the \<^verbatim>\<open>datetime\<close> and
  \<^verbatim>\<open>timedelta\<close> types of Python's standard library. The library is modelled first, after
  its reference implementation (the functions \<^verbatim>\<open>_is_leap\<close>, \<^verbatim>\<open>_days_before_year\<close>,
  \<^verbatim>\<open>_ymd2ord\<close>, \<^verbatim>\<open>_ord2ymd\<close>, ... of the module \<^verbatim>\<open>datetime\<close>), then the method.
  Python's integers are unbounded: they are \<^typ>\<open>int\<close>. Exceptions are values of the
  type \<open>error\<close>, and a computation that can raise returns \<open>error + 'a\<close>.
\<close>

subsection \<open>Exceptions\<close>

datatype error = ValueError | OverflowError | ArgumentTypeError

subsection \<open>The calendar of the module \<^verbatim>\<open>datetime\<close>\<close>

definition MINYEAR :: int where
  "MINYEAR = 1"

definition MAXYEAR :: int where
  "MAXYEAR = 9999"

text \<open>\<^verbatim>\<open>_MAXORDINAL = 3652059\<close>, the ordinal of 9999-12-31.\<close>

definition MAXORDINAL :: int where
  "MAXORDINAL = 3652059"

text \<open>The two tables are indexed by the month; index 0 is a placeholder.\<close>

definition DAYS_IN_MONTH :: "int list" where
  "DAYS_IN_MONTH = [-1, 31, 28, 31, 30, 31, 30, 31, 31, 30, 31, 30, 31]"

definition DAYS_BEFORE_MONTH :: "int list" where
  "DAYS_BEFORE_MONTH = [-1, 0, 31, 59, 90, 120, 151, 181, 212, 243, 273, 304, 334]"

text \<open>\<^verbatim>\<open>year % 4 == 0 and (year % 100 != 0 or year % 400 == 0)\<close>\<close>

definition is_leap :: "int \<Rightarrow> bool" where
  "is_leap y = (y mod 4 = 0 \<and> (y mod 100 \<noteq> 0 \<or> y mod 400 = 0))"

text \<open>\<^verbatim>\<open>y = year - 1; return y*365 + y//4 - y//100 + y//400\<close>\<close>

definition days_before_year :: "int \<Rightarrow> int" where
  "days_before_year y = (let z = y - 1 in z * 365 + z div 4 - z div 100 + z div 400)"

definition days_in_month :: "int \<Rightarrow> int \<Rightarrow> int" where
  "days_in_month y m = (if m = 2 \<and> is_leap y then 29 else DAYS_IN_MONTH ! nat m)"

text \<open>\<^verbatim>\<open>_DAYS_BEFORE_MONTH[month] + (month > 2 and _is_leap(year))\<close>\<close>

definition days_before_month :: "int \<Rightarrow> int \<Rightarrow> int" where
  "days_before_month y m = DAYS_BEFORE_MONTH ! nat m + (if m > 2 \<and> is_leap y then 1 else 0)"

definition ymd2ord :: "int \<Rightarrow> int \<Rightarrow> int \<Rightarrow> int" where
  "ymd2ord y m d = days_before_year y + days_before_month y m + d"

definition DI400Y :: int where
  "DI400Y = 146097"

definition DI100Y :: int where
  "DI100Y = 36524"

definition DI4Y :: int where
  "DI4Y = 1461"

text \<open>
  \<^verbatim>\<open>_ord2ymd\<close>: the ordinal to year, month and day, with 0001-01-01 as day 1. Python's
  \<^verbatim>\<open>divmod\<close> rounds to minus infinity, as \<open>div\<close> and \<open>mod\<close> on \<^typ>\<open>int\<close> do;
  \<^verbatim>\<open>(n + 50) >> 5\<close> is a division by 32.
\<close>

definition ord2ymd :: "int \<Rightarrow> int \<times> int \<times> int" where
  "ord2ymd n0 =
    (let n = n0 - 1;
         n400 = n div DI400Y; n = n mod DI400Y;
         y = n400 * 400 + 1;
         n100 = n div DI100Y; n = n mod DI100Y;
         n4 = n div DI4Y; n = n mod DI4Y;
         n1 = n div 365; n = n mod 365;
         y = y + (n100 * 100 + n4 * 4 + n1)
     in if n1 = 4 \<or> n100 = 4 then (y - 1, 12, 31)
        else
          let leapyear = (n1 = 3 \<and> (n4 \<noteq> 24 \<or> n100 = 3));
              m = (n + 50) div 32;
              preceding = DAYS_BEFORE_MONTH ! nat m + (if m > 2 \<and> leapyear then 1 else 0)
          in if preceding > n
             then let m = m - 1;
                      preceding = preceding - (DAYS_IN_MONTH ! nat m + (if m = 2 \<and> leapyear then 1 else 0))
                  in (y, m, n - preceding + 1)
             else (y, m, n - preceding + 1))"

subsection \<open>\<^verbatim>\<open>datetime\<close> and \<^verbatim>\<open>timedelta\<close>\<close>

text \<open>
  A \<^verbatim>\<open>datetime\<close> holds a year, a month and a day. The time of day and the time zone
  are left out: a start date of the form \<^verbatim>\<open>YYYY-MM-DD\<close> has none, a \<^verbatim>\<open>timedelta\<close> of whole
  days changes neither (nor do they move the sum across the ends of the range of dates),
  and \<^verbatim>\<open>strftime("%m%d")\<close> prints neither.
\<close>

record datetime =
  year :: int
  month :: int
  day :: int

text \<open>\<^verbatim>\<open>_check_date_fields\<close>, the check of the constructor.\<close>

definition check_date_fields :: "int \<Rightarrow> int \<Rightarrow> int \<Rightarrow> bool" where
  "check_date_fields y m d =
     (MINYEAR \<le> y \<and> y \<le> MAXYEAR \<and> 1 \<le> m \<and> m \<le> 12 \<and> 1 \<le> d \<and> d \<le> days_in_month y m)"

definition new_datetime :: "int \<Rightarrow> int \<Rightarrow> int \<Rightarrow> error + datetime" where
  "new_datetime y m d =
     (if check_date_fields y m d then Inr \<lparr>year = y, month = m, day = d\<rparr> else Inl ValueError)"

definition toordinal :: "datetime \<Rightarrow> int" where
  "toordinal dt = ymd2ord (year dt) (month dt) (day dt)"

definition fromordinal :: "int \<Rightarrow> datetime" where
  "fromordinal n = (case ord2ymd n of (y, m, d) \<Rightarrow> \<lparr>year = y, month = m, day = d\<rparr>)"

text \<open>
  \<^verbatim>\<open>timedelta(days=n)\<close> is its number of days; the constructor raises
  \<^verbatim>\<open>OverflowError\<close> beyond 999999999 days either way.
\<close>

definition timedelta :: "int \<Rightarrow> error + int" where
  "timedelta days = (if \<bar>days\<bar> > 999999999 then Inl OverflowError else Inr days)"

text \<open>
  \<^verbatim>\<open>datetime.__add__\<close>: the sum is taken on ordinals, and a result outside
  \<^verbatim>\<open>0 < days <= _MAXORDINAL\<close> raises \<^verbatim>\<open>OverflowError("date value out of range")\<close>.
\<close>

definition datetime_add :: "datetime \<Rightarrow> int \<Rightarrow> error + datetime" where
  "datetime_add dt days =
     (let n = toordinal dt + days
      in if 0 < n \<and> n \<le> MAXORDINAL then Inr (fromordinal n) else Inl OverflowError)"

text \<open>Comparison of two dates is that of the tuples (year, month, day).\<close>

definition datetime_less :: "datetime \<Rightarrow> datetime \<Rightarrow> bool" where
  "datetime_less a b =
     (year a < year b \<or> (year a = year b \<and> (month a < month b \<or> (month a = month b \<and> day a < day b))))"

subsection \<open>Formatting and parsing\<close>

definition digit_char :: "int \<Rightarrow> char" where
  "digit_char k = ''0123456789'' ! nat k"

text \<open>The decimal digits of a natural number, \<^verbatim>\<open>str(n)\<close>.\<close>

fun str_nat :: "nat \<Rightarrow> string" where
  "str_nat n = (if n < 10 then [digit_char (int n)] else str_nat (n div 10) @ [digit_char (int (n mod 10))])"

declare str_nat.simps [simp del]

text \<open>The conversion \<^verbatim>\<open>%02d\<close> of a number: at least two digits, padded with a zero.\<close>

definition fmt_02d :: "int \<Rightarrow> string" where
  "fmt_02d k =
     (if k < 0 then CHR ''-'' # str_nat (nat (- k))
      else if k < 10 then CHR ''0'' # str_nat (nat k)
      else str_nat (nat k))"

text \<open>\<^verbatim>\<open>work_datetime.strftime("%m%d")\<close>\<close>

definition strftime_md :: "datetime \<Rightarrow> string" where
  "strftime_md dt = fmt_02d (month dt) @ fmt_02d (day dt)"

definition is_digit :: "char \<Rightarrow> bool" where
  "is_digit c = (c \<in> set ''0123456789'')"

definition digit_val :: "char \<Rightarrow> int" where
  "digit_val c = int (of_char c) - 48"

fun int_of_digits :: "int \<Rightarrow> string \<Rightarrow> int" where
  "int_of_digits acc [] = acc"
| "int_of_digits acc (c # cs) = int_of_digits (acc * 10 + digit_val c) cs"

text \<open>
  The date of the form \<^verbatim>\<open>YYYY-MM-DD\<close>, the form of the command line's pattern: four
  digits, a hyphen, two digits, a hyphen, two digits. Every version of the library reads
  such a string as the year, the month and the day.
\<close>

definition parse_isoformat_date :: "string \<Rightarrow> (int \<times> int \<times> int) option" where
  "parse_isoformat_date s =
     (case s of
        [y1, y2, y3, y4, h1, m1, m2, h2, d1, d2] \<Rightarrow>
          if (\<forall>c \<in> set [y1, y2, y3, y4, m1, m2, d1, d2]. is_digit c) \<and> h1 = CHR ''-'' \<and> h2 = CHR ''-''
          then Some (int_of_digits 0 [y1, y2, y3, y4], int_of_digits 0 [m1, m2], int_of_digits 0 [d1, d2])
          else None
      | _ \<Rightarrow> None)"

text \<open>
  \<^verbatim>\<open>datetime.fromisoformat\<close>. A string of the form \<^verbatim>\<open>YYYY-MM-DD\<close> is read as above. The
  library reads other forms too, and which ones depends on its version (a time of day
  after the date in all of them; the basic form \<^verbatim>\<open>YYYYMMDD\<close> and week dates in the later
  ones). That part of the library is the parameter \<open>other_forms\<close>: the year, the month
  and the day that the library reads from a string of another form, or \<open>None\<close> where it
  reads none. Either way the fields go to the constructor, and every failure is a
  \<^verbatim>\<open>ValueError\<close>. A time of day and a time zone that the library reads are left out, as said
  above.
\<close>

definition fromisoformat :: "(string \<Rightarrow> (int \<times> int \<times> int) option) \<Rightarrow> string \<Rightarrow> error + datetime" where
  "fromisoformat other_forms s =
     (case parse_isoformat_date s of
        Some (y, m, d) \<Rightarrow> new_datetime y m d
      | None \<Rightarrow>
          (case other_forms s of
             Some (y, m, d) \<Rightarrow> new_datetime y m d
           | None \<Rightarrow> Inl ValueError))"

text \<open>The library that reads no other form than \<^verbatim>\<open>YYYY-MM-DD\<close>.\<close>

definition no_other_forms :: "string \<Rightarrow> (int \<times> int \<times> int) option" where
  "no_other_forms s = None"

subsection \<open>\<^verbatim>\<open>PayPeriods.list\<close>\<close>

text \<open>One row of the response, the dictionary \<^verbatim>\<open>{"pay_period": item}\<close>.\<close>

record row =
  pay_period :: string

text \<open>
  The first loop, \<^verbatim>\<open>for pay_period in range(number_of_pay_periods)\<close>, with the number of
  iterations left, the variable \<^verbatim>\<open>work_datetime\<close> (\<open>None\<close> before the first iteration;
  a \<^verbatim>\<open>datetime\<close> is always true in a condition) and the list \<^verbatim>\<open>work_datetimes\<close>.
\<close>

fun first_loop :: "(string \<Rightarrow> (int \<times> int \<times> int) option) \<Rightarrow> int \<Rightarrow> string \<Rightarrow> nat
    \<Rightarrow> datetime option \<Rightarrow> datetime list \<Rightarrow> error + datetime list" where
  "first_loop other_forms dpp s 0 work_datetime work_datetimes = Inr work_datetimes"
| "first_loop other_forms dpp s (Suc k) (Some wd) work_datetimes =
     (case timedelta dpp of
        Inl e \<Rightarrow> Inl e
      | Inr td \<Rightarrow>
          (case datetime_add wd td of
             Inl e \<Rightarrow> Inl e
           | Inr wd' \<Rightarrow> first_loop other_forms dpp s k (Some wd') (work_datetimes @ [wd'])))"
| "first_loop other_forms dpp s (Suc k) None work_datetimes =
     (case fromisoformat other_forms s of
        Inl e \<Rightarrow> Inl e
      | Inr wd' \<Rightarrow> first_loop other_forms dpp s k (Some wd') (work_datetimes @ [wd']))"

text \<open>The end of the period that starts at \<open>wd\<close>: \<^verbatim>\<open>work_datetime + timedelta(days=(days_per_pay_period - 1))\<close>.\<close>

definition period_end :: "int \<Rightarrow> datetime \<Rightarrow> error + datetime" where
  "period_end dpp wd = (case timedelta (dpp - 1) of Inl e \<Rightarrow> Inl e | Inr td \<Rightarrow> datetime_add wd td)"

text \<open>\<^verbatim>\<open>item = f"e_{beg}_{end}"\<close>\<close>

definition item :: "datetime \<Rightarrow> datetime \<Rightarrow> string" where
  "item b e = ''e_'' @ strftime_md b @ ''_'' @ strftime_md e"

text \<open>The second loop, \<^verbatim>\<open>for work_datetime in work_datetimes\<close>, with the list \<^verbatim>\<open>response\<close>.\<close>

fun second_loop :: "int \<Rightarrow> datetime list \<Rightarrow> row list \<Rightarrow> error + row list" where
  "second_loop dpp [] response = Inr response"
| "second_loop dpp (wd # wds) response =
     (case period_end dpp wd of
        Inl e \<Rightarrow> Inl e
      | Inr e \<Rightarrow> second_loop dpp wds (response @ [\<lparr>pay_period = item wd e\<rparr>]))"

text \<open>
  The method: \<^verbatim>\<open>range(n)\<close> has \<open>nat n\<close> elements, none when \<open>n\<close> is negative. The
  line written to the log has no part in the result. The first argument is the parameter
  of \<open>fromisoformat\<close>.
\<close>

definition list_pay_periods :: "(string \<Rightarrow> (int \<times> int \<times> int) option) \<Rightarrow> int \<Rightarrow> int \<Rightarrow> string \<Rightarrow> error + row list" where
  "list_pay_periods other_forms days_per_pay_period number_of_pay_periods start_datetime =
     (case first_loop other_forms days_per_pay_period start_datetime (nat number_of_pay_periods) None [] of
        Inl e \<Rightarrow> Inl e
      | Inr work_datetimes \<Rightarrow> second_loop days_per_pay_period work_datetimes [])"

text \<open>
  The validator of the command line's \<^verbatim>\<open>--start-datetime\<close>:
  \<^verbatim>\<open>search(r"^2[0-9][0-9][0-9]-[0-9][0-9]-[0-9][0-9]$", value)\<close>. The \<^verbatim>\<open>$\<close> of Python
  also matches before a newline that ends the string.
\<close>

definition match_datetime :: "string \<Rightarrow> bool" where
  "match_datetime v =
     (let body = (if v \<noteq> [] \<and> last v = CHR 0x0A then butlast v else v)
      in case body of
           [y1, y2, y3, y4, h1, m1, m2, h2, d1, d2] \<Rightarrow>
             y1 = CHR ''2'' \<and> is_digit y2 \<and> is_digit y3 \<and> is_digit y4 \<and> h1 = CHR ''-''
             \<and> is_digit m1 \<and> is_digit m2 \<and> h2 = CHR ''-'' \<and> is_digit d1 \<and> is_digit d2
         | _ \<Rightarrow> False)"

definition datetime_string :: "string \<Rightarrow> error + string" where
  "datetime_string v = (if \<not> match_datetime v then Inl ArgumentTypeError else Inr v)"

section \<open>The specification's formulation\<close>

text \<open>
  The specification computes period \<open>i\<close> in closed form:
  \<^verbatim>\<open>periodStart_i = startDate + i * daysPerPeriod days\<close>,
  \<^verbatim>\<open>periodEnd_i = periodStart_i + (daysPerPeriod - 1) days\<close> and
  \<^verbatim>\<open>label_i = "e_" + format(periodStart_i, "MMDD") + "_" + format(periodEnd_i, "MMDD")\<close>.
  The functions below follow these words, over the same dates and the same addition of
  days as the program's.
\<close>

definition spec_period_start :: "datetime \<Rightarrow> int \<Rightarrow> nat \<Rightarrow> error + datetime" where
  "spec_period_start startDate daysPerPeriod i =
     (case timedelta (int i * daysPerPeriod) of
        Inl e \<Rightarrow> Inl e
      | Inr td \<Rightarrow> datetime_add startDate td)"

definition spec_period_end :: "datetime \<Rightarrow> int \<Rightarrow> nat \<Rightarrow> error + datetime" where
  "spec_period_end startDate daysPerPeriod i =
     (case spec_period_start startDate daysPerPeriod i of
        Inl e \<Rightarrow> Inl e
      | Inr periodStart \<Rightarrow>
          (case timedelta (daysPerPeriod - 1) of
             Inl e \<Rightarrow> Inl e
           | Inr td \<Rightarrow> datetime_add periodStart td))"

text \<open>\<^verbatim>\<open>format(date, "MMDD")\<close>: the month and the day, two digits each, padded with a zero.\<close>

definition two_digits :: "int \<Rightarrow> string" where
  "two_digits k = [digit_char (k div 10), digit_char (k mod 10)]"

definition format_MMDD :: "datetime \<Rightarrow> string" where
  "format_MMDD dt = two_digits (month dt) @ two_digits (day dt)"

definition spec_label :: "datetime \<Rightarrow> int \<Rightarrow> nat \<Rightarrow> error + string" where
  "spec_label startDate daysPerPeriod i =
     (case spec_period_start startDate daysPerPeriod i of
        Inl e \<Rightarrow> Inl e
      | Inr periodStart \<Rightarrow>
          (case spec_period_end startDate daysPerPeriod i of
             Inl e \<Rightarrow> Inl e
           | Inr periodEnd \<Rightarrow> Inr (''e_'' @ format_MMDD periodStart @ ''_'' @ format_MMDD periodEnd)))"

text \<open>The results of a list of computations, or the first error among them.\<close>

fun collect :: "(error + 'a) list \<Rightarrow> error + 'a list" where
  "collect [] = Inr []"
| "collect (Inl e # xs) = Inl e"
| "collect (Inr x # xs) = (case collect xs of Inl e \<Rightarrow> Inl e | Inr ys \<Rightarrow> Inr (x # ys))"

text \<open>\<^verbatim>\<open>generate\<close> of the specification, on a parsed start date: the labels of the periods \<open>0\<close> to \<open>periodCount - 1\<close>.\<close>

definition spec_generate :: "int \<Rightarrow> int \<Rightarrow> datetime \<Rightarrow> error + string list" where
  "spec_generate daysPerPeriod periodCount startDate =
     collect (map (spec_label startDate daysPerPeriod) [0..<nat periodCount])"

text \<open>The labels of a response of the program.\<close>

definition labels :: "error + row list \<Rightarrow> error + string list" where
  "labels r = (case r of Inl e \<Rightarrow> Inl e | Inr rows \<Rightarrow> Inr (map pay_period rows))"

text \<open>The pattern \<^verbatim>\<open>e_\d{4}_\d{4}\<close>, matched against the whole label.\<close>

definition label_pattern :: "string \<Rightarrow> bool" where
  "label_pattern l =
     (case l of
        [c1, c2, a1, a2, a3, a4, c3, b1, b2, b3, b4] \<Rightarrow>
          c1 = CHR ''e'' \<and> c2 = CHR ''_'' \<and> is_digit a1 \<and> is_digit a2 \<and> is_digit a3 \<and> is_digit a4
          \<and> c3 = CHR ''_'' \<and> is_digit b1 \<and> is_digit b2 \<and> is_digit b3 \<and> is_digit b4
      | _ \<Rightarrow> False)"

section \<open>Notions of the proofs\<close>

text \<open>The invariant of a \<^verbatim>\<open>datetime\<close>: its fields passed the check of the constructor.\<close>

definition valid_datetime :: "datetime \<Rightarrow> bool" where
  "valid_datetime dt = check_date_fields (year dt) (month dt) (day dt)"

text \<open>An ordinal that is a date: \<^verbatim>\<open>0 < n <= _MAXORDINAL\<close>.\<close>

definition in_range :: "int \<Rightarrow> bool" where
  "in_range n = (0 < n \<and> n \<le> MAXORDINAL)"

text \<open>The starts of \<open>k\<close> periods, by their ordinals.\<close>

definition period_starts :: "datetime \<Rightarrow> int \<Rightarrow> nat \<Rightarrow> datetime list" where
  "period_starts p dpp k = map (\<lambda>i. fromordinal (toordinal p + int i * dpp)) [0..<k]"

text \<open>
  The start of the last of \<open>k\<close> periods, the end of the first and the end of the last
  are dates; then so are all the others, which lie between them.
\<close>

definition periods_in_range :: "datetime \<Rightarrow> int \<Rightarrow> nat \<Rightarrow> bool" where
  "periods_in_range p dpp k =
     (in_range (toordinal p + (int k - 1) * dpp) \<and> in_range (toordinal p + (dpp - 1))
      \<and> in_range (toordinal p + (int k - 1) * dpp + (dpp - 1)))"

section \<open>The calendar: ordinals and dates\<close>

lemma div_minus_pred:
  fixes y k :: int
  assumes "0 < k"
  shows "y div k - (y - 1) div k = (if y mod k = 0 then 1 else 0)"
proof (cases "y mod k = 0")
  case True
  have "y = k * (y div k) + y mod k" by simp
  with True have "y - 1 = k * (y div k - 1) + (k - 1)" by (simp add: algebra_simps)
  then have "(y - 1) div k = y div k - 1"
    using assms int_div_pos_eq [of "y - 1" k "y div k - 1" "k - 1"] by simp
  with True show ?thesis by simp
next
  case False
  have b: "0 \<le> y mod k" "y mod k < k" using assms by simp_all
  have "y = k * (y div k) + y mod k" by simp
  then have "y - 1 = k * (y div k) + (y mod k - 1)" by linarith
  moreover have "0 \<le> y mod k - 1" "y mod k - 1 < k" using b False by linarith+
  ultimately have "(y - 1) div k = y div k"
    using int_div_pos_eq [of "y - 1" k "y div k" "y mod k - 1"] by blast
  with False show ?thesis by simp
qed

lemma mod_400_imp: "(y::int) mod 400 = 0 \<Longrightarrow> y mod 100 = 0"
proof -
  assume "y mod 400 = 0"
  then have "400 dvd y" by (rule mod_0_imp_dvd)
  moreover have "(100::int) dvd 400" by simp
  ultimately have "100 dvd y" using dvd_trans by blast
  then show ?thesis by (rule dvd_imp_mod_0)
qed

lemma mod_100_imp: "(y::int) mod 100 = 0 \<Longrightarrow> y mod 4 = 0"
proof -
  assume "y mod 100 = 0"
  then have "100 dvd y" by (rule mod_0_imp_dvd)
  moreover have "(4::int) dvd 100" by simp
  ultimately have "4 dvd y" using dvd_trans by blast
  then show ?thesis by (rule dvd_imp_mod_0)
qed

lemma days_before_year_Suc:
  "days_before_year (y + 1) = days_before_year y + (if is_leap y then 366 else 365)"
proof -
  define q4 q100 q400 where "q4 = (y - 1) div 4" and "q100 = (y - 1) div 100" and "q400 = (y - 1) div 400"
  define p4 p100 p400 where "p4 = (y mod 4 = 0)" and "p100 = (y mod 100 = 0)" and "p400 = (y mod 400 = 0)"
  have a: "y div 4 = q4 + (if p4 then 1 else 0)"
    using div_minus_pred [of 4 y] by (simp add: q4_def p4_def)
  have b: "y div 100 = q100 + (if p100 then 1 else 0)"
    using div_minus_pred [of 100 y] by (simp add: q100_def p100_def)
  have c: "y div 400 = q400 + (if p400 then 1 else 0)"
    using div_minus_pred [of 400 y] by (simp add: q400_def p400_def)
  have i: "p400 \<longrightarrow> p100" "p100 \<longrightarrow> p4"
    using mod_400_imp [of y] mod_100_imp [of y] by (simp_all add: p4_def p100_def p400_def)
  have l: "is_leap y = (p4 \<and> (\<not> p100 \<or> p400))"
    by (simp add: is_leap_def p4_def p100_def p400_def)
  have d: "days_before_year (y + 1) = y * 365 + y div 4 - y div 100 + y div 400"
    by (simp add: days_before_year_def)
  have e: "days_before_year y = (y - 1) * 365 + q4 - q100 + q400"
    by (simp add: days_before_year_def Let_def q4_def q100_def q400_def)
  show ?thesis
    unfolding d e l a b c using i by (cases p4; cases p100; cases p400; simp)
qed

lemma days_before_year_mono:
  "y \<le> y' \<Longrightarrow> days_before_year y + 365 * (y' - y) \<le> days_before_year y'"
proof (induction y' rule: int_ge_induct)
  case base
  show ?case by simp
next
  case (step i)
  then show ?case by (simp add: days_before_year_Suc split: if_splits)
qed

lemma days_before_year_1: "days_before_year 1 = 0"
  by (simp add: days_before_year_def)

lemma days_before_year_10000: "days_before_year 10000 = 3652059"
  by (simp add: days_before_year_def)

lemma month_cases:
  fixes m :: int
  assumes "1 \<le> m" "m \<le> 12"
  obtains "m = 1" | "m = 2" | "m = 3" | "m = 4" | "m = 5" | "m = 6"
        | "m = 7" | "m = 8" | "m = 9" | "m = 10" | "m = 11" | "m = 12"
proof -
  have "m = 1 \<or> m = 2 \<or> m = 3 \<or> m = 4 \<or> m = 5 \<or> m = 6
      \<or> m = 7 \<or> m = 8 \<or> m = 9 \<or> m = 10 \<or> m = 11 \<or> m = 12"
    using assms by presburger
  then show ?thesis using that by blast
qed

lemma days_before_month_nonneg:
  "1 \<le> m \<Longrightarrow> m \<le> 12 \<Longrightarrow> 0 \<le> days_before_month y m"
  by (erule (1) month_cases) (simp_all add: days_before_month_def DAYS_BEFORE_MONTH_def)

lemma days_in_month_pos:
  "1 \<le> m \<Longrightarrow> m \<le> 12 \<Longrightarrow> 28 \<le> days_in_month y m \<and> days_in_month y m \<le> 31"
  by (erule (1) month_cases) (simp_all add: days_in_month_def DAYS_IN_MONTH_def)

lemma days_before_month_Suc:
  "1 \<le> m \<Longrightarrow> m \<le> 11 \<Longrightarrow> days_before_month y (m + 1) = days_before_month y m + days_in_month y m"
  by (erule month_cases [of m])
     (simp_all add: days_before_month_def days_in_month_def DAYS_BEFORE_MONTH_def DAYS_IN_MONTH_def)

lemma days_before_month_12:
  "days_before_month y 12 + days_in_month y 12 = (if is_leap y then 366 else 365)"
  by (simp add: days_before_month_def days_in_month_def DAYS_BEFORE_MONTH_def DAYS_IN_MONTH_def)

lemma days_before_month_mono:
  "m < m' \<Longrightarrow> 1 \<le> m \<Longrightarrow> m' \<le> 12 \<Longrightarrow> days_before_month y m + days_in_month y m \<le> days_before_month y m'"
proof (induction m' rule: int_gr_induct)
  case base
  then show ?case by (simp add: days_before_month_Suc)
next
  case (step i)
  then have "days_before_month y (i + 1) = days_before_month y i + days_in_month y i"
    by (simp add: days_before_month_Suc)
  moreover have "28 \<le> days_in_month y i" using step days_in_month_pos [of i y] by simp
  ultimately show ?case using step by simp
qed

lemma days_before_month_le_year:
  assumes "1 \<le> m" "m \<le> 12"
  shows "days_before_month y m + days_in_month y m \<le> (if is_leap y then 366 else 365)"
proof (cases "m = 12")
  case True
  then show ?thesis using days_before_month_12 [of y] by simp
next
  case False
  then have "days_before_month y m + days_in_month y m \<le> days_before_month y 12"
    using assms by (intro days_before_month_mono) simp_all
  moreover have "28 \<le> days_in_month y 12" using days_in_month_pos [of 12 y] by simp
  ultimately show ?thesis using days_before_month_12 [of y] by (simp split: if_splits)
qed

text \<open>A month and a day that exist in the year.\<close>

lemma ymd2ord_bounds:
  assumes "1 \<le> m" "m \<le> 12" "1 \<le> d" "d \<le> days_in_month y m"
  shows "days_before_year y < ymd2ord y m d" and "ymd2ord y m d \<le> days_before_year (y + 1)"
proof -
  show "days_before_year y < ymd2ord y m d"
    using assms days_before_month_nonneg [of m y] by (simp add: ymd2ord_def)
  show "ymd2ord y m d \<le> days_before_year (y + 1)"
    using assms days_before_month_le_year [of m y]
    by (simp add: ymd2ord_def days_before_year_Suc split: if_splits)
qed

lemma ymd2ord_strict_mono:
  assumes v: "1 \<le> m" "m \<le> 12" "1 \<le> d" "d \<le> days_in_month y m"
    and v': "1 \<le> m'" "m' \<le> 12" "1 \<le> d'" "d' \<le> days_in_month y' m'"
    and less: "y < y' \<or> (y = y' \<and> (m < m' \<or> (m = m' \<and> d < d')))"
  shows "ymd2ord y m d < ymd2ord y' m' d'"
proof -
  consider "y < y'" | "y = y'" "m < m'" | "y = y'" "m = m'" "d < d'"
    using less by blast
  then show ?thesis
  proof cases
    case 1
    have "ymd2ord y m d \<le> days_before_year (y + 1)" using v by (rule ymd2ord_bounds)
    also have "\<dots> \<le> days_before_year y'"
      using 1 days_before_year_mono [of "y + 1" y'] by simp
    also have "\<dots> < ymd2ord y' m' d'" using v' by (rule ymd2ord_bounds)
    finally show ?thesis .
  next
    case 2
    have "days_before_month y m + days_in_month y m \<le> days_before_month y m'"
      using 2 v v' by (intro days_before_month_mono) simp_all
    then show ?thesis using 2 v v' by (simp add: ymd2ord_def)
  next
    case 3
    then show ?thesis by (simp add: ymd2ord_def)
  qed
qed

lemma ymd2ord_inject:
  assumes v: "1 \<le> m" "m \<le> 12" "1 \<le> d" "d \<le> days_in_month y m"
    and v': "1 \<le> m'" "m' \<le> 12" "1 \<le> d'" "d' \<le> days_in_month y' m'"
    and eq: "ymd2ord y m d = ymd2ord y' m' d'"
  shows "y = y' \<and> m = m' \<and> d = d'"
proof (rule ccontr)
  assume "\<not> ?thesis"
  then have "(y < y' \<or> (y = y' \<and> (m < m' \<or> (m = m' \<and> d < d'))))
           \<or> (y' < y \<or> (y' = y \<and> (m' < m \<or> (m' = m \<and> d' < d))))"
    by linarith
  then show False
    using ymd2ord_strict_mono [OF v v'] ymd2ord_strict_mono [OF v' v] eq by fastforce
qed

subsection \<open>From the ordinal back to the date\<close>

lemma year_decomp:
  fixes a b c e :: int
  assumes "0 \<le> b" "b \<le> 3" "0 \<le> c" "c \<le> 24" "0 \<le> e" "e \<le> 3"
  shows "days_before_year (400 * a + 100 * b + 4 * c + e + 1) = 146097 * a + 36524 * b + 1461 * c + 365 * e"
    and "is_leap (400 * a + 100 * b + 4 * c + e + 1) \<longleftrightarrow> e = 3 \<and> (c \<noteq> 24 \<or> b = 3)"
proof -
  define Y where "Y = 400 * a + 100 * b + 4 * c + e"
  have d4: "Y div 4 = 100 * a + 25 * b + c"
    using assms by (intro int_div_pos_eq [where r = e]) (simp_all add: Y_def)
  have d100: "Y div 100 = 4 * a + b"
    using assms by (intro int_div_pos_eq [where r = "4 * c + e"]) (simp_all add: Y_def)
  have d400: "Y div 400 = a"
    using assms by (intro int_div_pos_eq [where r = "100 * b + 4 * c + e"]) (simp_all add: Y_def)
  have "days_before_year (Y + 1) = Y * 365 + Y div 4 - Y div 100 + Y div 400"
    by (simp add: days_before_year_def)
  also have "\<dots> = 146097 * a + 36524 * b + 1461 * c + 365 * e"
    unfolding d4 d100 d400 by (simp add: Y_def)
  finally show "days_before_year (400 * a + 100 * b + 4 * c + e + 1) = 146097 * a + 36524 * b + 1461 * c + 365 * e"
    by (simp add: Y_def)
  have m4: "(Y + 1) mod 4 = 0 \<longleftrightarrow> e = 3"
  proof (cases "e = 3")
    case True
    then have "Y + 1 = 4 * (100 * a + 25 * b + c + 1) + 0" by (simp add: Y_def)
    then have "(Y + 1) mod 4 = 0" by (rule int_mod_pos_eq) simp_all
    with True show ?thesis by simp
  next
    case False
    have "Y + 1 = 4 * (100 * a + 25 * b + c) + (e + 1)" by (simp add: Y_def)
    moreover have "e + 1 < 4" using assms False by linarith
    ultimately have "(Y + 1) mod 4 = e + 1"
      using assms by (intro int_mod_pos_eq [where q = "100 * a + 25 * b + c"]) simp_all
    with False assms show ?thesis by simp
  qed
  have m100: "(Y + 1) mod 100 = 0 \<longleftrightarrow> c = 24 \<and> e = 3"
  proof (cases "c = 24 \<and> e = 3")
    case True
    then have "Y + 1 = 100 * (4 * a + b + 1) + 0" by (simp add: Y_def)
    then have "(Y + 1) mod 100 = 0" by (rule int_mod_pos_eq) simp_all
    with True show ?thesis by simp
  next
    case False
    have "Y + 1 = 100 * (4 * a + b) + (4 * c + e + 1)" by (simp add: Y_def)
    moreover have "4 * c + e + 1 < 100" using assms False by linarith
    ultimately have "(Y + 1) mod 100 = 4 * c + e + 1"
      using assms by (intro int_mod_pos_eq [where q = "4 * a + b"]) simp_all
    with False assms show ?thesis by simp
  qed
  have m400: "(Y + 1) mod 400 = 0 \<longleftrightarrow> b = 3 \<and> c = 24 \<and> e = 3"
  proof (cases "b = 3 \<and> c = 24 \<and> e = 3")
    case True
    then have "Y + 1 = 400 * (a + 1) + 0" by (simp add: Y_def)
    then have "(Y + 1) mod 400 = 0" by (rule int_mod_pos_eq) simp_all
    with True show ?thesis by simp
  next
    case False
    have "Y + 1 = 400 * a + (100 * b + 4 * c + e + 1)" by (simp add: Y_def)
    moreover have "100 * b + 4 * c + e + 1 < 400" using assms False by linarith
    ultimately have "(Y + 1) mod 400 = 100 * b + 4 * c + e + 1"
      using assms by (intro int_mod_pos_eq [where q = a]) simp_all
    with False assms show ?thesis by simp
  qed
  have "is_leap (Y + 1) \<longleftrightarrow> e = 3 \<and> (c \<noteq> 24 \<or> b = 3)"
    unfolding is_leap_def m4 m100 m400 by blast
  then show "is_leap (400 * a + 100 * b + 4 * c + e + 1) \<longleftrightarrow> e = 3 \<and> (c \<noteq> 24 \<or> b = 3)"
    by (simp add: Y_def)
qed

lemma within_year:
  fixes k mm pre m d :: int
  assumes k: "0 \<le> k" "k < 365"
    and mm: "mm = (k + 50) div 32"
    and pre: "pre = DAYS_BEFORE_MONTH ! nat mm + (if mm > 2 \<and> lp then 1 else 0)"
    and res: "(m, d) = (if pre > k
                 then (mm - 1, k - (pre - (DAYS_IN_MONTH ! nat (mm - 1) + (if mm - 1 = 2 \<and> lp then 1 else 0))) + 1)
                 else (mm, k - pre + 1))"
  shows "1 \<le> m \<and> m \<le> 12 \<and> 1 \<le> d \<and> d \<le> (if m = 2 \<and> lp then 29 else DAYS_IN_MONTH ! nat m)
         \<and> DAYS_BEFORE_MONTH ! nat m + (if m > 2 \<and> lp then 1 else 0) + d = k + 1"
proof -
  have "k + 50 = 32 * mm + (k + 50) mod 32" by (simp add: mm)
  moreover have "0 \<le> (k + 50) mod 32" "(k + 50) mod 32 < 32" by simp_all
  ultimately have b: "32 * mm \<le> k + 50" "k + 50 < 32 * mm + 32" by linarith+
  with k have "1 \<le> mm" "mm \<le> 12" by linarith+
  then show ?thesis
  proof (cases mm rule: month_cases)
    case 1 with b k pre res show ?thesis by (simp add: DAYS_BEFORE_MONTH_def DAYS_IN_MONTH_def)
  next
    case 2 with b k pre res show ?thesis by (simp add: DAYS_BEFORE_MONTH_def DAYS_IN_MONTH_def split: if_splits)
  next
    case 3 with b k pre res show ?thesis by (simp add: DAYS_BEFORE_MONTH_def DAYS_IN_MONTH_def split: if_splits)
  next
    case 4 with b k pre res show ?thesis by (simp add: DAYS_BEFORE_MONTH_def DAYS_IN_MONTH_def split: if_splits)
  next
    case 5 with b k pre res show ?thesis by (simp add: DAYS_BEFORE_MONTH_def DAYS_IN_MONTH_def split: if_splits)
  next
    case 6 with b k pre res show ?thesis by (simp add: DAYS_BEFORE_MONTH_def DAYS_IN_MONTH_def split: if_splits)
  next
    case 7 with b k pre res show ?thesis by (simp add: DAYS_BEFORE_MONTH_def DAYS_IN_MONTH_def split: if_splits)
  next
    case 8 with b k pre res show ?thesis by (simp add: DAYS_BEFORE_MONTH_def DAYS_IN_MONTH_def split: if_splits)
  next
    case 9 with b k pre res show ?thesis by (simp add: DAYS_BEFORE_MONTH_def DAYS_IN_MONTH_def split: if_splits)
  next
    case 10 with b k pre res show ?thesis by (simp add: DAYS_BEFORE_MONTH_def DAYS_IN_MONTH_def split: if_splits)
  next
    case 11 with b k pre res show ?thesis by (simp add: DAYS_BEFORE_MONTH_def DAYS_IN_MONTH_def split: if_splits)
  next
    case 12 with b k pre res show ?thesis by (simp add: DAYS_BEFORE_MONTH_def DAYS_IN_MONTH_def split: if_splits)
  qed
qed

lemma ord2ymd_correct:
  assumes "ord2ymd n = (y, m, d)"
  shows "1 \<le> m \<and> m \<le> 12 \<and> 1 \<le> d \<and> d \<le> days_in_month y m \<and> ymd2ord y m d = n"
proof -
  define a where "a = (n - 1) div 146097"
  define r where "r = (n - 1) mod 146097"
  define b where "b = r div 36524"
  define r2 where "r2 = r mod 36524"
  define c where "c = r2 div 1461"
  define r3 where "r3 = r2 mod 1461"
  define e where "e = r3 div 365"
  define k where "k = r3 mod 365"
  define lp where "lp = (e = 3 \<and> (c \<noteq> 24 \<or> b = 3))"
  define mm where "mm = (k + 50) div 32"
  define pre where "pre = DAYS_BEFORE_MONTH ! nat mm + (if mm > 2 \<and> lp then 1 else 0)"
  have n: "n - 1 = 146097 * a + r" and r: "0 \<le> r" "r < 146097"
    by (simp_all add: a_def r_def)
  have r': "r = 36524 * b + r2" and r2: "0 \<le> r2" "r2 < 36524"
    by (simp_all add: b_def r2_def)
  have r2': "r2 = 1461 * c + r3" and r3: "0 \<le> r3" "r3 < 1461"
    by (simp_all add: c_def r3_def)
  have r3': "r3 = 365 * e + k" and k: "0 \<le> k" "k < 365"
    by (simp_all add: e_def k_def)
  have b: "0 \<le> b" "b \<le> 4" using r r' r2 by linarith+
  have c: "0 \<le> c" "c \<le> 24" using r2 r2' r3 by linarith+
  have e: "0 \<le> e" "e \<le> 4" using r3 r3' k by linarith+
  have ord: "ord2ymd n =
    (if e = 4 \<or> b = 4 then (a * 400 + 1 + (b * 100 + c * 4 + e) - 1, 12, 31)
     else if pre > k
       then (a * 400 + 1 + (b * 100 + c * 4 + e), mm - 1,
             k - (pre - (DAYS_IN_MONTH ! nat (mm - 1) + (if mm - 1 = 2 \<and> lp then 1 else 0))) + 1)
       else (a * 400 + 1 + (b * 100 + c * 4 + e), mm, k - pre + 1))"
    unfolding ord2ymd_def Let_def DI400Y_def DI100Y_def DI4Y_def
      a_def r_def b_def r2_def c_def r3_def e_def k_def lp_def mm_def pre_def
    by (rule refl)
  show ?thesis
  proof (cases "e = 4 \<or> b = 4")
    case True
    then have ymd: "y = 400 * a + (100 * b + 4 * c + e)" "m = 12" "d = 31"
      using assms ord by simp_all
    have "\<exists>b' c'. 0 \<le> b' \<and> b' \<le> 3 \<and> 0 \<le> c' \<and> c' \<le> 24
          \<and> y = 400 * a + 100 * b' + 4 * c' + 3 + 1 \<and> (c' \<noteq> 24 \<or> b' = 3)
          \<and> n = 146097 * a + 36524 * b' + 1461 * c' + 365 * 3 + 366"
    proof (cases "b = 4")
      case True
      then have "r2 = 0" using r r' r2 by linarith
      then have "c = 0" "r3 = 0" using r2' r3 c by linarith+
      then have "e = 0" "k = 0" using r3' e k by linarith+
      have "y = 400 * a + 100 * 3 + 4 * 24 + 3 + 1" using ymd \<open>b = 4\<close> \<open>c = 0\<close> \<open>e = 0\<close> by simp
      moreover have "n = 146097 * a + 36524 * 3 + 1461 * 24 + 365 * 3 + 366"
        using n r' \<open>b = 4\<close> \<open>r2 = 0\<close> by simp
      ultimately show ?thesis by (intro exI [of _ 3] exI [of _ 24]) simp
    next
      case False
      with True have e4: "e = 4" by simp
      then have "k = 0" "r3 = 1460" using r3 r3' k by linarith+
      have "c \<noteq> 24" using r2 r2' \<open>r3 = 1460\<close> by linarith
      have "b \<le> 3" using b False by linarith
      have "y = 400 * a + 100 * b + 4 * c + 3 + 1" using ymd e4 by simp
      moreover have "n = 146097 * a + 36524 * b + 1461 * c + 365 * 3 + 366"
        using n r' r2' \<open>r3 = 1460\<close> by simp
      ultimately show ?thesis using b c \<open>b \<le> 3\<close> \<open>c \<noteq> 24\<close> by blast
    qed
    then obtain b' c' where bc: "0 \<le> b'" "b' \<le> 3" "0 \<le> c'" "c' \<le> 24"
      and y: "y = 400 * a + 100 * b' + 4 * c' + 3 + 1" and lp': "c' \<noteq> 24 \<or> b' = 3"
      and n': "n = 146097 * a + 36524 * b' + 1461 * c' + 365 * 3 + 366"
      by blast
    have "days_before_year y = 146097 * a + 36524 * b' + 1461 * c' + 365 * 3"
      unfolding y using bc by (intro year_decomp) simp_all
    moreover have "is_leap y"
      unfolding y using bc lp' year_decomp(2) [of b' c' 3 a] by simp
    ultimately show ?thesis
      using ymd n' by (simp add: ymd2ord_def days_before_month_def days_in_month_def
          DAYS_BEFORE_MONTH_def DAYS_IN_MONTH_def)
  next
    case False
    then have be: "b \<le> 3" "e \<le> 3" using b e by linarith+
    define D where "D = k - (pre - (DAYS_IN_MONTH ! nat (mm - 1) + (if mm - 1 = 2 \<and> lp then 1 else 0))) + 1"
    have "ord2ymd n =
       (if pre > k then (a * 400 + 1 + (b * 100 + c * 4 + e), mm - 1, D)
        else (a * 400 + 1 + (b * 100 + c * 4 + e), mm, k - pre + 1))"
      unfolding D_def using False by (subst ord) (rule if_not_P)
    with assms have yy: "(y, m, d) =
       (if pre > k then (a * 400 + 1 + (b * 100 + c * 4 + e), mm - 1, D)
        else (a * 400 + 1 + (b * 100 + c * 4 + e), mm, k - pre + 1))"
      by simp
    have y: "y = 400 * a + 100 * b + 4 * c + e + 1"
      using yy by (cases "pre > k") simp_all
    have "(m, d) = (if pre > k then (mm - 1, D) else (mm, k - pre + 1))"
      using yy by (cases "pre > k") simp_all
    then have md: "(m, d) = (if pre > k
                 then (mm - 1, k - (pre - (DAYS_IN_MONTH ! nat (mm - 1) + (if mm - 1 = 2 \<and> lp then 1 else 0))) + 1)
                 else (mm, k - pre + 1))"
      unfolding D_def .
    have dby: "days_before_year y = 146097 * a + 36524 * b + 1461 * c + 365 * e"
      unfolding y using b c e be by (intro year_decomp) simp_all
    have leap: "is_leap y = lp"
      unfolding y lp_def using b c e be by (intro year_decomp) simp_all
    have w: "1 \<le> m \<and> m \<le> 12 \<and> 1 \<le> d \<and> d \<le> (if m = 2 \<and> lp then 29 else DAYS_IN_MONTH ! nat m)
         \<and> DAYS_BEFORE_MONTH ! nat m + (if m > 2 \<and> lp then 1 else 0) + d = k + 1"
      using k mm_def pre_def md by (rule within_year)
    have "n = 146097 * a + 36524 * b + 1461 * c + 365 * e + k + 1"
      using n r' r2' r3' by linarith
    then show ?thesis
      using w dby leap by (simp add: ymd2ord_def days_before_month_def days_in_month_def)
  qed
qed

subsection \<open>Dates\<close>

lemma toordinal_fromordinal: "toordinal (fromordinal n) = n"
proof -
  obtain y m d where o: "ord2ymd n = (y, m, d)" by (cases "ord2ymd n") auto
  then show ?thesis using ord2ymd_correct [OF o] by (simp add: toordinal_def fromordinal_def)
qed

lemma fromordinal_valid:
  assumes "0 < n" "n \<le> MAXORDINAL"
  shows "valid_datetime (fromordinal n)"
proof -
  obtain y m d where o: "ord2ymd n = (y, m, d)" by (cases "ord2ymd n") auto
  note c = ord2ymd_correct [OF o]
  have lo: "days_before_year y < n" using c ymd2ord_bounds(1) [of m d y] by simp
  have hi: "n \<le> days_before_year (y + 1)" using c ymd2ord_bounds(2) [of m d y] by simp
  have "1 \<le> y"
  proof (rule ccontr)
    assume "\<not> 1 \<le> y"
    then have "y + 1 \<le> 1" by simp
    then have "days_before_year (y + 1) \<le> days_before_year 1"
      using days_before_year_mono [of "y + 1" 1] by simp
    with hi assms show False by (simp add: days_before_year_1)
  qed
  moreover have "y \<le> 9999"
  proof (rule ccontr)
    assume "\<not> y \<le> 9999"
    then have "10000 \<le> y" by simp
    then have "days_before_year 10000 \<le> days_before_year y"
      using days_before_year_mono [of 10000 y] by simp
    with lo assms show False by (simp add: days_before_year_10000 MAXORDINAL_def)
  qed
  ultimately show ?thesis
    using c o by (simp add: valid_datetime_def check_date_fields_def fromordinal_def MINYEAR_def MAXYEAR_def)
qed

lemma toordinal_range:
  assumes "valid_datetime dt"
  shows "0 < toordinal dt" and "toordinal dt \<le> MAXORDINAL"
proof -
  from assms have v: "1 \<le> month dt" "month dt \<le> 12" "1 \<le> day dt" "day dt \<le> days_in_month (year dt) (month dt)"
    and y: "1 \<le> year dt" "year dt \<le> 9999"
    by (simp_all add: valid_datetime_def check_date_fields_def MINYEAR_def MAXYEAR_def)
  have "days_before_year 1 \<le> days_before_year (year dt)"
    using y days_before_year_mono [of 1 "year dt"] by simp
  then show "0 < toordinal dt"
    using ymd2ord_bounds(1) [OF v] by (simp add: toordinal_def days_before_year_1)
  have "days_before_year (year dt + 1) \<le> days_before_year 10000"
    using y days_before_year_mono [of "year dt + 1" 10000] by simp
  then show "toordinal dt \<le> MAXORDINAL"
    using ymd2ord_bounds(2) [OF v] by (simp add: toordinal_def days_before_year_10000 MAXORDINAL_def)
qed

lemma fromordinal_toordinal:
  assumes "valid_datetime dt"
  shows "fromordinal (toordinal dt) = dt"
proof -
  obtain y m d where o: "ord2ymd (toordinal dt) = (y, m, d)" by (cases "ord2ymd (toordinal dt)") auto
  note c = ord2ymd_correct [OF o]
  from assms have v: "1 \<le> month dt" "month dt \<le> 12" "1 \<le> day dt" "day dt \<le> days_in_month (year dt) (month dt)"
    by (simp_all add: valid_datetime_def check_date_fields_def)
  have "y = year dt \<and> m = month dt \<and> d = day dt"
    using c v by (intro ymd2ord_inject) (simp_all add: toordinal_def)
  then show ?thesis using o by (simp add: fromordinal_def)
qed

lemma datetime_less_iff:
  assumes "valid_datetime a" "valid_datetime b"
  shows "datetime_less a b \<longleftrightarrow> toordinal a < toordinal b"
proof -
  from assms have va: "1 \<le> month a" "month a \<le> 12" "1 \<le> day a" "day a \<le> days_in_month (year a) (month a)"
    and vb: "1 \<le> month b" "month b \<le> 12" "1 \<le> day b" "day b \<le> days_in_month (year b) (month b)"
    by (simp_all add: valid_datetime_def check_date_fields_def)
  show ?thesis
  proof
    assume "datetime_less a b"
    then show "toordinal a < toordinal b"
      unfolding toordinal_def datetime_less_def by (intro ymd2ord_strict_mono va vb)
  next
    assume l: "toordinal a < toordinal b"
    show "datetime_less a b"
    proof (rule ccontr)
      assume n: "\<not> datetime_less a b"
      have "a \<noteq> b" using l by auto
      then have "year a \<noteq> year b \<or> month a \<noteq> month b \<or> day a \<noteq> day b" by (cases a; cases b) auto
      with n have "datetime_less b a" unfolding datetime_less_def by linarith
      then have "toordinal b < toordinal a"
        unfolding toordinal_def datetime_less_def by (intro ymd2ord_strict_mono va vb)
      with l show False by simp
    qed
  qed
qed

lemma new_datetime_valid: "new_datetime y m d = Inr dt \<Longrightarrow> valid_datetime dt"
  by (auto simp: new_datetime_def valid_datetime_def split: if_splits)

lemma fromisoformat_valid: "fromisoformat lib s = Inr dt \<Longrightarrow> valid_datetime dt"
  unfolding fromisoformat_def
  by (auto split: option.splits dest: new_datetime_valid)

lemma fromisoformat_error: "fromisoformat lib s = Inl e \<Longrightarrow> e = ValueError"
  unfolding fromisoformat_def new_datetime_def
  by (auto split: option.splits if_splits)

section \<open>The two loops\<close>

lemma datetime_add_eq:
  "datetime_add dt k = (if in_range (toordinal dt + k) then Inr (fromordinal (toordinal dt + k)) else Inl OverflowError)"
  by (simp add: datetime_add_def in_range_def Let_def)

lemma in_range_toordinal: "valid_datetime dt \<Longrightarrow> in_range (toordinal dt)"
  by (simp add: in_range_def toordinal_range)

lemma in_range_timedelta: "in_range a \<Longrightarrow> in_range (a + k) \<Longrightarrow> timedelta k = Inr k"
  by (auto simp: in_range_def timedelta_def MAXORDINAL_def)

lemma mult_between:
  fixes d :: int
  assumes "i \<le> k"
  shows "(0 \<le> int i * d \<and> int i * d \<le> int k * d) \<or> (int k * d \<le> int i * d \<and> int i * d \<le> 0)"
proof (cases "0 \<le> d")
  case True
  then have "int i * d \<le> int k * d" using assms by (intro mult_right_mono) simp_all
  moreover have "0 \<le> int i * d" using True by simp
  ultimately show ?thesis by simp
next
  case False
  then have "int k * d \<le> int i * d" using assms by (intro mult_right_mono_neg) simp_all
  moreover have "int i * d \<le> 0" using False by (simp add: mult_nonneg_nonpos)
  ultimately show ?thesis by simp
qed

lemma in_range_step:
  assumes "in_range a" "in_range (a + int k * d)" "i \<le> k"
  shows "in_range (a + int i * d)"
  using assms(1,2) mult_between [OF assms(3), of d] by (auto simp: in_range_def)

lemma first_loop_Some:
  assumes "valid_datetime wd"
  shows "first_loop lib dpp s k (Some wd) acc =
     (if in_range (toordinal wd + int k * dpp)
      then Inr (acc @ map (\<lambda>i. fromordinal (toordinal wd + int i * dpp)) [1..<Suc k])
      else Inl OverflowError)"
  using assms
proof (induction k arbitrary: wd acc)
  case 0
  then show ?case by (simp add: in_range_toordinal)
next
  case (Suc k)
  have a: "in_range (toordinal wd)" using Suc.prems by (rule in_range_toordinal)
  show ?case
  proof (cases "in_range (toordinal wd + int (Suc k) * dpp)")
    case True
    have one: "in_range (toordinal wd + dpp)"
      using in_range_step [OF a True, of 1] by simp
    then have td: "timedelta dpp = Inr dpp" using a by (rule in_range_timedelta [rotated])
    define wd' where "wd' = fromordinal (toordinal wd + dpp)"
    have add: "datetime_add wd dpp = Inr wd'" using one by (simp add: datetime_add_eq wd'_def)
    have v': "valid_datetime wd'" using one by (simp add: wd'_def in_range_def fromordinal_valid)
    have o': "toordinal wd' = toordinal wd + dpp" by (simp add: wd'_def toordinal_fromordinal)
    have e: "toordinal wd' + int i * dpp = toordinal wd + int (Suc i) * dpp" for i
      by (simp add: o' algebra_simps)
    define F where "F i = fromordinal (toordinal wd + int i * dpp)" for i
    have u: "[1..<Suc (Suc k)] = 1 # map Suc [1..<Suc k]"
      by (simp add: map_Suc_upt upt_conv_Cons del: upt_Suc)
    have "map F [1..<Suc (Suc k)] = F 1 # map (\<lambda>i. F (Suc i)) [1..<Suc k]"
      unfolding u by (simp only: list.map map_map comp_def)
    moreover have "F 1 = wd'" by (simp add: F_def wd'_def)
    moreover have "F (Suc i) = fromordinal (toordinal wd' + int i * dpp)" for i
      unfolding F_def e ..
    ultimately have m: "map (\<lambda>i. fromordinal (toordinal wd + int i * dpp)) [1..<Suc (Suc k)]
        = wd' # map (\<lambda>i. fromordinal (toordinal wd' + int i * dpp)) [1..<Suc k]"
      unfolding F_def by simp
    have "first_loop lib dpp s (Suc k) (Some wd) acc = first_loop lib dpp s k (Some wd') (acc @ [wd'])"
      by (simp add: td add)
    also have "\<dots> = Inr ((acc @ [wd']) @ map (\<lambda>i. fromordinal (toordinal wd' + int i * dpp)) [1..<Suc k])"
      using True by (subst Suc.IH [OF v']) (simp add: e)
    finally show ?thesis using True m by (simp del: upt_Suc)
  next
    case False
    have "first_loop lib dpp s (Suc k) (Some wd) acc = Inl OverflowError"
    proof (cases "timedelta dpp")
      case (Inl err)
      then show ?thesis by (simp add: timedelta_def split: if_splits)
    next
      case (Inr td)
      then have td: "timedelta dpp = Inr dpp" by (simp add: timedelta_def split: if_splits)
      show ?thesis
      proof (cases "in_range (toordinal wd + dpp)")
        case True
        define wd' where "wd' = fromordinal (toordinal wd + dpp)"
        have add: "datetime_add wd dpp = Inr wd'" using True by (simp add: datetime_add_eq wd'_def)
        have v': "valid_datetime wd'" using True by (simp add: wd'_def in_range_def fromordinal_valid)
        have o': "toordinal wd' = toordinal wd + dpp" by (simp add: wd'_def toordinal_fromordinal)
        have e: "toordinal wd' + int k * dpp = toordinal wd + int (Suc k) * dpp"
          by (simp add: o' algebra_simps)
        have "first_loop lib dpp s (Suc k) (Some wd) acc = first_loop lib dpp s k (Some wd') (acc @ [wd'])"
          by (simp add: td add)
        also have "\<dots> = Inl OverflowError"
          using False by (subst Suc.IH [OF v']) (simp add: e)
        finally show ?thesis .
      next
        case False
        then show ?thesis by (simp add: td datetime_add_eq)
      qed
    qed
    with False show ?thesis by simp
  qed
qed

lemma period_end_eq:
  assumes "valid_datetime wd"
  shows "period_end dpp wd =
     (if in_range (toordinal wd + (dpp - 1)) then Inr (fromordinal (toordinal wd + (dpp - 1)))
      else Inl OverflowError)"
proof (cases "in_range (toordinal wd + (dpp - 1))")
  case True
  then have "timedelta (dpp - 1) = Inr (dpp - 1)"
    using in_range_toordinal [OF assms] in_range_timedelta by blast
  with True show ?thesis by (simp add: period_end_def datetime_add_eq)
next
  case False
  then show ?thesis
    by (cases "timedelta (dpp - 1)") (auto simp: period_end_def datetime_add_eq timedelta_def split: if_splits)
qed

lemma second_loop_eq:
  assumes "\<forall>wd \<in> set wds. valid_datetime wd"
  shows "second_loop dpp wds acc =
     (if \<forall>wd \<in> set wds. in_range (toordinal wd + (dpp - 1))
      then Inr (acc @ map (\<lambda>wd. \<lparr>pay_period = item wd (fromordinal (toordinal wd + (dpp - 1)))\<rparr>) wds)
      else Inl OverflowError)"
  using assms
proof (induction wds arbitrary: acc)
  case Nil
  show ?case by simp
next
  case (Cons wd wds)
  then have v: "valid_datetime wd" and vs: "\<forall>wd \<in> set wds. valid_datetime wd" by simp_all
  show ?case
    by (simp add: period_end_eq [OF v] Cons.IH [OF vs])
qed

lemma first_loop_None:
  assumes p: "fromisoformat lib s = Inr p" and k: "0 < k"
  shows "first_loop lib dpp s k None [] =
     (if in_range (toordinal p + (int k - 1) * dpp)
      then Inr (map (\<lambda>i. fromordinal (toordinal p + int i * dpp)) [0..<k])
      else Inl OverflowError)"
proof -
  obtain j where j: "k = Suc j" using k by (cases k) auto
  have v: "valid_datetime p" using p by (rule fromisoformat_valid)
  have "[0..<Suc j] = 0 # [1..<Suc j]" by (simp add: upt_conv_Cons del: upt_Suc)
  then have "map (\<lambda>i. fromordinal (toordinal p + int i * dpp)) [0..<Suc j]
     = p # map (\<lambda>i. fromordinal (toordinal p + int i * dpp)) [1..<Suc j]"
    by (simp add: fromordinal_toordinal [OF v] del: upt_Suc)
  then show ?thesis
    unfolding j by (simp add: p first_loop_Some [OF v] del: upt_Suc)
qed

lemma first_loop_None_error:
  "fromisoformat lib s = Inl e \<Longrightarrow> 0 < k \<Longrightarrow> first_loop lib dpp s k None [] = Inl e"
  by (cases k) auto

lemma ends_in_range:
  assumes "0 < k"
  shows "(\<forall>wd \<in> set (period_starts p dpp k). in_range (toordinal wd + (dpp - 1)))
     \<longleftrightarrow> in_range (toordinal p + (dpp - 1)) \<and> in_range (toordinal p + (int k - 1) * dpp + (dpp - 1))"
proof -
  have s: "(\<forall>wd \<in> set (period_starts p dpp k). in_range (toordinal wd + (dpp - 1)))
     \<longleftrightarrow> (\<forall>i < k. in_range (toordinal p + (dpp - 1) + int i * dpp))"
    by (auto simp: period_starts_def toordinal_fromordinal algebra_simps)
  obtain j where j: "k = Suc j" using assms by (cases k) auto
  have e: "toordinal p + (int k - 1) * dpp + (dpp - 1) = toordinal p + (dpp - 1) + int j * dpp"
    by (simp add: j algebra_simps)
  show ?thesis
    unfolding s e
  proof
    assume a: "\<forall>i < k. in_range (toordinal p + (dpp - 1) + int i * dpp)"
    have "in_range (toordinal p + (dpp - 1) + int 0 * dpp)" using a assms by blast
    moreover have "in_range (toordinal p + (dpp - 1) + int j * dpp)" using a j by blast
    ultimately show "in_range (toordinal p + (dpp - 1)) \<and> in_range (toordinal p + (dpp - 1) + int j * dpp)"
      by simp
  next
    assume a: "in_range (toordinal p + (dpp - 1)) \<and> in_range (toordinal p + (dpp - 1) + int j * dpp)"
    show "\<forall>i < k. in_range (toordinal p + (dpp - 1) + int i * dpp)"
    proof (intro allI impI)
      fix i assume "i < k"
      then have "i \<le> j" using j by simp
      then show "in_range (toordinal p + (dpp - 1) + int i * dpp)"
        using a in_range_step by blast
    qed
  qed
qed

lemma period_starts_valid:
  assumes "valid_datetime p" "in_range (toordinal p + (int k - 1) * dpp)" "0 < k"
  shows "\<forall>wd \<in> set (period_starts p dpp k). valid_datetime wd"
proof
  fix wd assume "wd \<in> set (period_starts p dpp k)"
  then obtain i where i: "i < k" "wd = fromordinal (toordinal p + int i * dpp)"
    by (auto simp: period_starts_def)
  obtain j where j: "k = Suc j" using assms by (cases k) auto
  then have "in_range (toordinal p + int j * dpp)" using assms by simp
  moreover have "i \<le> j" using i j by simp
  ultimately have "in_range (toordinal p + int i * dpp)"
    using in_range_toordinal [OF assms(1)] in_range_step by blast
  then show "valid_datetime wd" using i by (simp add: in_range_def fromordinal_valid)
qed

lemma list_pay_periods_empty: "n \<le> 0 \<Longrightarrow> list_pay_periods lib dpp n s = Inr []"
  by (simp add: list_pay_periods_def)

lemma list_pay_periods_error:
  "0 < n \<Longrightarrow> fromisoformat lib s = Inl e \<Longrightarrow> list_pay_periods lib dpp n s = Inl e"
  by (simp add: list_pay_periods_def first_loop_None_error)

lemma list_pay_periods_parsed:
  assumes p: "fromisoformat lib s = Inr p" and n: "0 < n"
  shows "list_pay_periods lib dpp n s =
     (if periods_in_range p dpp (nat n)
      then Inr (map (\<lambda>wd. \<lparr>pay_period = item wd (fromordinal (toordinal wd + (dpp - 1)))\<rparr>)
                 (period_starts p dpp (nat n)))
      else Inl OverflowError)"
proof -
  have k: "0 < nat n" using n by simp
  have v: "valid_datetime p" using p by (rule fromisoformat_valid)
  note fl = first_loop_None [OF p k, of dpp, folded period_starts_def]
  show ?thesis
  proof (cases "in_range (toordinal p + (int (nat n) - 1) * dpp)")
    case True
    have vs: "\<forall>wd \<in> set (period_starts p dpp (nat n)). valid_datetime wd"
      using v True k by (rule period_starts_valid)
    show ?thesis
      unfolding list_pay_periods_def fl
      using True by (simp add: second_loop_eq [OF vs] ends_in_range [OF k] periods_in_range_def)
  next
    case False
    then show ?thesis
      unfolding list_pay_periods_def fl by (simp add: periods_in_range_def)
  qed
qed

section \<open>The labels\<close>

lemma is_digit_digit_char: "0 \<le> k \<Longrightarrow> k \<le> 9 \<Longrightarrow> is_digit (digit_char k)"
proof -
  assume "0 \<le> k" "k \<le> 9"
  then have "k = 0 \<or> k = 1 \<or> k = 2 \<or> k = 3 \<or> k = 4 \<or> k = 5 \<or> k = 6 \<or> k = 7 \<or> k = 8 \<or> k = 9"
    by presburger
  then show ?thesis by (auto simp: is_digit_def digit_char_def)
qed

lemma fmt_02d_two_digits:
  assumes "0 \<le> k" "k \<le> 99"
  shows "fmt_02d k = two_digits k"
proof (cases "k < 10")
  case True
  then have "k div 10 = 0" "k mod 10 = k" using assms by simp_all
  moreover have "nat k < 10" using True assms by simp
  then have "str_nat (nat k) = [digit_char (int (nat k))]"
    by (subst str_nat.simps) simp
  then have "str_nat (nat k) = [digit_char k]" using assms by simp
  ultimately show ?thesis using True assms by (simp add: fmt_02d_def two_digits_def digit_char_def)
next
  case False
  then have "nat k div 10 < 10" using assms by simp
  then have "str_nat (nat k div 10) = [digit_char (int (nat k div 10))]"
    by (subst str_nat.simps) simp
  moreover have "int (nat k div 10) = k div 10" "int (nat k mod 10) = k mod 10"
    using assms by (simp_all add: zdiv_int zmod_int)
  moreover have "\<not> nat k < 10" using False assms by simp
  ultimately have "str_nat (nat k) = [digit_char (k div 10), digit_char (k mod 10)]"
    by (subst str_nat.simps) simp
  then show ?thesis using False assms by (simp add: fmt_02d_def two_digits_def)
qed

lemma valid_datetime_fields:
  assumes "valid_datetime dt"
  shows "1 \<le> month dt" "month dt \<le> 12" "1 \<le> day dt" "day dt \<le> 31"
  using assms days_in_month_pos [of "month dt" "year dt"]
  by (simp_all add: valid_datetime_def check_date_fields_def)

lemma strftime_md_format:
  assumes "valid_datetime dt"
  shows "strftime_md dt = format_MMDD dt"
  using valid_datetime_fields [OF assms]
  by (simp add: strftime_md_def format_MMDD_def fmt_02d_two_digits)

lemma two_digits_digits:
  assumes "0 \<le> k" "k \<le> 99"
  shows "\<exists>a b. two_digits k = [a, b] \<and> is_digit a \<and> is_digit b"
proof -
  have "0 \<le> k div 10" "k div 10 \<le> 9" using assms by simp_all
  moreover have "0 \<le> k mod 10" "k mod 10 \<le> 9" by simp_all
  ultimately show ?thesis by (simp add: two_digits_def is_digit_digit_char)
qed

lemma format_MMDD_digits:
  assumes "valid_datetime dt"
  shows "\<exists>a b c d. format_MMDD dt = [a, b, c, d] \<and> is_digit a \<and> is_digit b \<and> is_digit c \<and> is_digit d"
proof -
  note f = valid_datetime_fields [OF assms]
  obtain a b where m: "two_digits (month dt) = [a, b]" "is_digit a" "is_digit b"
    using two_digits_digits [of "month dt"] f by auto
  obtain c d where d: "two_digits (day dt) = [c, d]" "is_digit c" "is_digit d"
    using two_digits_digits [of "day dt"] f by auto
  show ?thesis using m d by (simp add: format_MMDD_def)
qed

lemma item_format:
  assumes "valid_datetime b" "valid_datetime e"
  shows "item b e = ''e_'' @ format_MMDD b @ ''_'' @ format_MMDD e"
  using assms by (simp add: item_def strftime_md_format)

lemma item_pattern:
  assumes "valid_datetime b" "valid_datetime e"
  shows "label_pattern (item b e)"
proof -
  obtain a1 a2 a3 a4 where b: "format_MMDD b = [a1, a2, a3, a4]" "is_digit a1" "is_digit a2" "is_digit a3" "is_digit a4"
    using format_MMDD_digits [OF assms(1)] by blast
  obtain b1 b2 b3 b4 where e: "format_MMDD e = [b1, b2, b3, b4]" "is_digit b1" "is_digit b2" "is_digit b3" "is_digit b4"
    using format_MMDD_digits [OF assms(2)] by blast
  show ?thesis
    unfolding item_format [OF assms] b e using b e by (simp add: label_pattern_def)
qed

section \<open>What the method returns\<close>

lemma period_starts_nth:
  "i < k \<Longrightarrow> period_starts p dpp k ! i = fromordinal (toordinal p + int i * dpp)"
  by (simp add: period_starts_def)

lemma length_period_starts: "length (period_starts p dpp k) = k"
  by (simp add: period_starts_def)

lemma first_loop_Inr:
  assumes p: "fromisoformat lib s = Inr p" and f: "first_loop lib dpp s k None [] = Inr ws"
  shows "ws = period_starts p dpp k" and "\<forall>i<k. in_range (toordinal p + int i * dpp)"
proof -
  have v: "valid_datetime p" using p by (rule fromisoformat_valid)
  show "ws = period_starts p dpp k"
  proof (cases k)
    case 0
    with f show ?thesis by (simp add: period_starts_def)
  next
    case (Suc j)
    then have "0 < k" by simp
    from first_loop_None [OF p this, of dpp] f show ?thesis
      by (simp add: period_starts_def split: if_splits)
  qed
  show "\<forall>i<k. in_range (toordinal p + int i * dpp)"
  proof (intro allI impI)
    fix i assume i: "i < k"
    then obtain j where j: "k = Suc j" by (cases k) auto
    have "0 < k" using i by simp
    from first_loop_None [OF p this, of dpp] f have "in_range (toordinal p + int j * dpp)"
      by (simp add: j split: if_splits)
    moreover have "i \<le> j" using i j by simp
    ultimately show "in_range (toordinal p + int i * dpp)"
      using in_range_toordinal [OF v] in_range_step by blast
  qed
qed

lemma list_pay_periods_Inr:
  assumes "list_pay_periods lib dpp n s = Inr rows"
  shows "\<exists>ws. first_loop lib dpp s (nat n) None [] = Inr ws \<and> length ws = nat n \<and> length rows = nat n
     \<and> (\<forall>i<nat n. valid_datetime (ws ! i)
          \<and> (\<exists>e. period_end dpp (ws ! i) = Inr e \<and> valid_datetime e
                \<and> rows ! i = \<lparr>pay_period = item (ws ! i) e\<rparr>))"
proof (cases "0 < n")
  case False
  then show ?thesis using assms by (simp add: list_pay_periods_def)
next
  case True
  then have k: "0 < nat n" by simp
  obtain p where p: "fromisoformat lib s = Inr p"
    using assms list_pay_periods_error [OF True, of _ s _ dpp] by (cases "fromisoformat lib s") auto
  have v: "valid_datetime p" using p by (rule fromisoformat_valid)
  note lp = list_pay_periods_parsed [OF p True, of dpp]
  from lp assms have r: "periods_in_range p dpp (nat n)"
    by (simp split: if_splits)
  from lp assms r have rows: "rows = map (\<lambda>wd. \<lparr>pay_period = item wd (fromordinal (toordinal wd + (dpp - 1)))\<rparr>)
                 (period_starts p dpp (nat n))"
    by simp
  have fl: "first_loop lib dpp s (nat n) None [] = Inr (period_starts p dpp (nat n))"
    using first_loop_None [OF p k, of dpp] r by (simp add: periods_in_range_def period_starts_def)
  have vs: "\<forall>wd \<in> set (period_starts p dpp (nat n)). valid_datetime wd"
    using v r k by (intro period_starts_valid) (simp_all add: periods_in_range_def)
  have es: "\<forall>wd \<in> set (period_starts p dpp (nat n)). in_range (toordinal wd + (dpp - 1))"
    using r ends_in_range [OF k, of p dpp] by (simp add: periods_in_range_def)
  have "valid_datetime (period_starts p dpp (nat n) ! i)
          \<and> (\<exists>e. period_end dpp (period_starts p dpp (nat n) ! i) = Inr e \<and> valid_datetime e
                \<and> rows ! i = \<lparr>pay_period = item (period_starts p dpp (nat n) ! i) e\<rparr>)"
    if i: "i < nat n" for i
  proof -
    define wd where "wd = period_starts p dpp (nat n) ! i"
    have m: "wd \<in> set (period_starts p dpp (nat n))"
      using i by (simp add: wd_def length_period_starts)
    have vw: "valid_datetime wd" using vs m by blast
    have ir: "in_range (toordinal wd + (dpp - 1))" using es m by blast
    have "period_end dpp wd = Inr (fromordinal (toordinal wd + (dpp - 1)))"
      using ir by (simp add: period_end_eq [OF vw])
    moreover have "valid_datetime (fromordinal (toordinal wd + (dpp - 1)))"
      using ir by (simp add: in_range_def fromordinal_valid)
    moreover have "rows ! i = \<lparr>pay_period = item wd (fromordinal (toordinal wd + (dpp - 1)))\<rparr>"
      using i by (simp add: rows wd_def length_period_starts)
    ultimately show ?thesis using vw unfolding wd_def by blast
  qed
  then show ?thesis
    using fl by (simp add: length_period_starts rows)
qed

lemma periods_in_range_forward:
  assumes d: "1 \<le> dpp" and n: "0 < n" and v: "valid_datetime p"
    and r: "toordinal p + n * dpp - 1 \<le> MAXORDINAL"
  shows "periods_in_range p dpp (nat n)"
proof -
  have o: "0 < toordinal p" using v by (rule toordinal_range)
  have m: "0 \<le> (n - 1) * dpp" using d n by simp
  have e: "n * dpp = (n - 1) * dpp + dpp" by (simp add: algebra_simps)
  have "int (nat n) = n" using n by simp
  then show ?thesis
    using o m r d unfolding periods_in_range_def in_range_def e by auto
qed

lemma periods_in_range_backward:
  assumes d: "dpp \<le> 0" and n: "0 < n" and v: "valid_datetime p"
    and r: "0 < toordinal p + n * dpp - 1"
  shows "periods_in_range p dpp (nat n)"
proof -
  have o: "toordinal p \<le> MAXORDINAL" using v by (rule toordinal_range)
  have m: "(n - 1) * dpp \<le> 0" using d n by (simp add: mult_nonneg_nonpos)
  have e: "n * dpp = (n - 1) * dpp + dpp" by (simp add: algebra_simps)
  have "int (nat n) = n" using n by simp
  then show ?thesis
    using o m r d unfolding periods_in_range_def in_range_def e by auto
qed

section \<open>The closed form of the specification\<close>

lemma spec_period_start_eq:
  assumes "valid_datetime p"
  shows "spec_period_start p dpp i =
     (if in_range (toordinal p + int i * dpp) then Inr (fromordinal (toordinal p + int i * dpp))
      else Inl OverflowError)"
proof (cases "in_range (toordinal p + int i * dpp)")
  case True
  then have "timedelta (int i * dpp) = Inr (int i * dpp)"
    using in_range_toordinal [OF assms] in_range_timedelta by blast
  with True show ?thesis by (simp add: spec_period_start_def datetime_add_eq)
next
  case False
  then show ?thesis
    by (cases "timedelta (int i * dpp)")
       (auto simp: spec_period_start_def datetime_add_eq timedelta_def split: if_splits)
qed

lemma spec_period_end_eq:
  assumes "valid_datetime p"
  shows "spec_period_end p dpp i =
     (if in_range (toordinal p + int i * dpp) \<and> in_range (toordinal p + int i * dpp + (dpp - 1))
      then Inr (fromordinal (toordinal p + int i * dpp + (dpp - 1)))
      else Inl OverflowError)"
proof (cases "in_range (toordinal p + int i * dpp)")
  case True
  define b where "b = fromordinal (toordinal p + int i * dpp)"
  have v: "valid_datetime b" using True by (simp add: b_def in_range_def fromordinal_valid)
  have o: "toordinal b = toordinal p + int i * dpp" by (simp add: b_def toordinal_fromordinal)
  have "spec_period_end p dpp i = period_end dpp b"
    using True by (simp add: spec_period_end_def spec_period_start_eq [OF assms] period_end_def b_def)
  also have "\<dots> = (if in_range (toordinal p + int i * dpp + (dpp - 1))
      then Inr (fromordinal (toordinal p + int i * dpp + (dpp - 1))) else Inl OverflowError)"
    unfolding period_end_eq [OF v] o ..
  finally show ?thesis using True by simp
next
  case False
  then show ?thesis by (simp add: spec_period_end_def spec_period_start_eq [OF assms])
qed

lemma spec_label_eq:
  assumes "valid_datetime p"
  shows "spec_label p dpp i =
     (if in_range (toordinal p + int i * dpp) \<and> in_range (toordinal p + int i * dpp + (dpp - 1))
      then Inr (item (fromordinal (toordinal p + int i * dpp))
                  (fromordinal (toordinal p + int i * dpp + (dpp - 1))))
      else Inl OverflowError)"
proof (cases "in_range (toordinal p + int i * dpp) \<and> in_range (toordinal p + int i * dpp + (dpp - 1))")
  case True
  then have "valid_datetime (fromordinal (toordinal p + int i * dpp))"
    and "valid_datetime (fromordinal (toordinal p + int i * dpp + (dpp - 1)))"
    by (simp_all add: in_range_def fromordinal_valid)
  then show ?thesis
    using True
    by (simp add: spec_label_def spec_period_start_eq [OF assms] spec_period_end_eq [OF assms] item_format)
next
  case False
  then show ?thesis
    by (auto simp: spec_label_def spec_period_start_eq [OF assms] spec_period_end_eq [OF assms])
qed

lemma collect_Inr: "collect (map (\<lambda>x. Inr (f x)) xs) = Inr (map f xs)"
  by (induction xs) simp_all

lemma collect_Inl:
  assumes "\<forall>x \<in> set xs. x = Inl e \<or> (\<exists>v. x = Inr v)" "Inl e \<in> set xs"
  shows "collect xs = Inl e"
  using assms
proof (induction xs)
  case Nil
  then show ?case by simp
next
  case (Cons x xs)
  show ?case
  proof (cases x)
    case (Inl e')
    with Cons.prems show ?thesis by auto
  next
    case (Inr v)
    with Cons.prems have "Inl e \<in> set xs" "\<forall>x \<in> set xs. x = Inl e \<or> (\<exists>v. x = Inr v)" by auto
    then have "collect xs = Inl e" using Cons.IH by blast
    with Inr show ?thesis by simp
  qed
qed

lemma spec_generate_empty: "n \<le> 0 \<Longrightarrow> spec_generate dpp n p = Inr []"
  by (simp add: spec_generate_def)

lemma spec_generate_parsed:
  assumes v: "valid_datetime p" and n: "0 < n"
  shows "spec_generate dpp n p =
     (if periods_in_range p dpp (nat n)
      then Inr (map (\<lambda>wd. item wd (fromordinal (toordinal wd + (dpp - 1)))) (period_starts p dpp (nat n)))
      else Inl OverflowError)"
proof -
  define k where "k = nat n"
  obtain j where j: "k = Suc j" using n by (cases k) (auto simp: k_def)
  have k: "0 < k" using j by simp
  have pr: "periods_in_range p dpp k \<longleftrightarrow>
      in_range (toordinal p + int j * dpp) \<and> in_range (toordinal p + (dpp - 1))
      \<and> in_range (toordinal p + int j * dpp + (dpp - 1))"
    by (simp add: periods_in_range_def j)
  show ?thesis
  proof (cases "periods_in_range p dpp k")
    case True
    have a: "in_range (toordinal p + int i * dpp)" if "i < k" for i
    proof -
      have "i \<le> j" using that j by simp
      then show ?thesis using True pr in_range_toordinal [OF v] in_range_step by blast
    qed
    have "\<forall>wd \<in> set (period_starts p dpp k). in_range (toordinal wd + (dpp - 1))"
      using True ends_in_range [OF k, of p dpp] by (simp add: periods_in_range_def)
    then have b: "in_range (toordinal p + int i * dpp + (dpp - 1))" if "i < k" for i
      using that by (auto simp: period_starts_def toordinal_fromordinal)
    define F where "F i = item (fromordinal (toordinal p + int i * dpp))
                  (fromordinal (toordinal p + int i * dpp + (dpp - 1)))" for i
    have m: "map (spec_label p dpp) [0..<k] = map (\<lambda>i. Inr (F i)) [0..<k]"
      using a b by (intro map_cong) (simp_all add: spec_label_eq [OF v] F_def)
    have "spec_generate dpp n p = collect (map (\<lambda>i. Inr (F i)) [0..<k])"
      unfolding spec_generate_def k_def [symmetric] m ..
    also have "\<dots> = Inr (map F [0..<k])" by (rule collect_Inr)
    finally have "spec_generate dpp n p = Inr (map (\<lambda>i. item (fromordinal (toordinal p + int i * dpp))
                  (fromordinal (toordinal p + int i * dpp + (dpp - 1)))) [0..<k])"
      unfolding F_def .
    then show ?thesis
      using True by (simp add: k_def [symmetric] period_starts_def toordinal_fromordinal comp_def)
  next
    case False
    have "\<exists>i<k. spec_label p dpp i = Inl OverflowError"
    proof (cases "in_range (toordinal p + (dpp - 1))")
      case True
      with False pr have "\<not> (in_range (toordinal p + int j * dpp) \<and> in_range (toordinal p + int j * dpp + (dpp - 1)))"
        by blast
      then have "spec_label p dpp j = Inl OverflowError" by (simp add: spec_label_eq [OF v])
      then show ?thesis using j by blast
    next
      case False
      then have "spec_label p dpp 0 = Inl OverflowError" by (simp add: spec_label_eq [OF v])
      then show ?thesis using k by blast
    qed
    then have "Inl OverflowError \<in> set (map (spec_label p dpp) [0..<k])"
      by (auto simp: image_iff) (metis atLeastLessThan_iff zero_le)
    moreover have "\<forall>x \<in> set (map (spec_label p dpp) [0..<k]). x = Inl OverflowError \<or> (\<exists>v. x = Inr v)"
      by (auto simp: spec_label_eq [OF v])
    ultimately have "collect (map (spec_label p dpp) [0..<k]) = Inl OverflowError"
      by (rule collect_Inl [rotated])
    then show ?thesis using False by (simp add: spec_generate_def k_def [symmetric])
  qed
qed

lemma first_loop_spec:
  assumes p: "fromisoformat lib s = Inr p" and f: "first_loop lib dpp s k None [] = Inr ws" and i: "i < k"
  shows "spec_period_start p dpp i = Inr (ws ! i)" and "spec_period_end p dpp i = period_end dpp (ws ! i)"
proof -
  have v: "valid_datetime p" using p by (rule fromisoformat_valid)
  note fl = first_loop_Inr [OF p f]
  have r: "in_range (toordinal p + int i * dpp)" using fl(2) i by blast
  have w: "ws ! i = fromordinal (toordinal p + int i * dpp)"
    using fl(1) i by (simp add: period_starts_nth)
  show s: "spec_period_start p dpp i = Inr (ws ! i)"
    using r by (simp add: spec_period_start_eq [OF v] w)
  show "spec_period_end p dpp i = period_end dpp (ws ! i)"
    by (simp add: spec_period_end_def s period_end_def)
qed

lemma labels_list_pay_periods:
  assumes p: "fromisoformat lib s = Inr p"
  shows "labels (list_pay_periods lib dpp n s) = spec_generate dpp n p"
proof (cases "0 < n")
  case True
  have v: "valid_datetime p" using p by (rule fromisoformat_valid)
  show ?thesis
    unfolding list_pay_periods_parsed [OF p True] spec_generate_parsed [OF v True]
    by (simp add: labels_def comp_def)
next
  case False
  then show ?thesis by (simp add: list_pay_periods_empty spec_generate_empty labels_def)
qed

section \<open>The claims\<close>

text \<open>
  In every theorem \<open>lib\<close> is the parameter of \<open>fromisoformat\<close>, what the library reads
  from a start date of another form than \<^verbatim>\<open>YYYY-MM-DD\<close>: the theorems hold whatever it
  reads.
\<close>

subsection \<open>The periods\<close>

text \<open>
  C1: for at least one day per period and a start date that parses, take the starts that
  the first loop computes. For every adjacent pair \<open>i\<close>, \<open>i + 1\<close> of them, the end of
  period \<open>i\<close> (its start plus \<open>days_per_pay_period - 1\<close> days) exists, and one day added
  to it is the start of period \<open>i + 1\<close>: the periods are contiguous. They do not overlap:
  the end is not before the start of its own period and is before the start of the next.
  Period \<open>i\<close> starts \<open>i * days_per_pay_period\<close> days after the start date and ends
  \<open>days_per_pay_period - 1\<close> days after its start.
\<close>

theorem C1_contiguous_periods:
  assumes d: "1 \<le> dpp"
    and p: "fromisoformat lib s = Inr p"
    and f: "first_loop lib dpp s (nat n) None [] = Inr ws"
    and i: "Suc i < length ws"
  shows "\<exists>e. period_end dpp (ws ! i) = Inr e \<and> datetime_add e 1 = Inr (ws ! Suc i)
     \<and> \<not> datetime_less e (ws ! i) \<and> datetime_less e (ws ! Suc i)
     \<and> toordinal (ws ! i) = toordinal p + int i * dpp
     \<and> toordinal e = toordinal (ws ! i) + (dpp - 1)"
proof -
  define k where "k = nat n"
  define a where "a = toordinal p + int i * dpp"
  define b where "b = toordinal p + int (Suc i) * dpp"
  note fl = first_loop_Inr [OF p f [folded k_def]]
  have len: "length ws = k" using fl(1) by (simp add: length_period_starts)
  have ik: "i < k" "Suc i < k" using i len by simp_all
  have ra: "in_range a" unfolding a_def using fl(2) ik(1) by blast
  have rb: "in_range b" unfolding b_def using fl(2) ik(2) by blast
  have ba: "b = a + dpp" by (simp add: a_def b_def algebra_simps)
  have wi: "ws ! i = fromordinal a" using fl(1) ik by (simp add: period_starts_nth a_def)
  have wj: "ws ! Suc i = fromordinal b" using fl(1) ik by (simp add: period_starts_nth b_def)
  have vi: "valid_datetime (ws ! i)" using ra by (simp add: wi in_range_def fromordinal_valid)
  have vj: "valid_datetime (ws ! Suc i)" using rb by (simp add: wj in_range_def fromordinal_valid)
  have oi: "toordinal (ws ! i) = a" by (simp add: wi toordinal_fromordinal)
  have oj: "toordinal (ws ! Suc i) = b" by (simp add: wj toordinal_fromordinal)
  have re: "in_range (a + (dpp - 1))"
    using ra rb d unfolding ba in_range_def by simp
  define e where "e = fromordinal (a + (dpp - 1))"
  have ve: "valid_datetime e" using re by (simp add: e_def in_range_def fromordinal_valid)
  have oe: "toordinal e = a + (dpp - 1)" by (simp add: e_def toordinal_fromordinal)
  have pe: "period_end dpp (ws ! i) = Inr e"
    using re by (simp add: period_end_eq [OF vi] oi e_def)
  have "toordinal e + 1 = b" by (simp add: oe ba)
  then have add: "datetime_add e 1 = Inr (ws ! Suc i)"
    using rb by (simp add: datetime_add_eq wj)
  have "\<not> datetime_less e (ws ! i)"
    using d by (simp add: datetime_less_iff [OF ve vi] oe oi)
  moreover have "datetime_less e (ws ! Suc i)"
    by (simp add: datetime_less_iff [OF ve vj] oe oj ba)
  ultimately show ?thesis using pe add oi oe by (auto simp: a_def)
qed

theorem C1_witness:
  "\<forall>lib. (1::int) \<le> 7
   \<and> fromisoformat lib ''2026-12-28'' = Inr \<lparr>year = 2026, month = 12, day = 28\<rparr>
   \<and> first_loop lib 7 ''2026-12-28'' (nat 2) None [] = Inr [\<lparr>year = 2026, month = 12, day = 28\<rparr>, \<lparr>year = 2027, month = 1, day = 4\<rparr>]
   \<and> period_end 7 \<lparr>year = 2026, month = 12, day = 28\<rparr> = Inr \<lparr>year = 2027, month = 1, day = 3\<rparr>
   \<and> datetime_add \<lparr>year = 2027, month = 1, day = 3\<rparr> 1 = Inr \<lparr>year = 2027, month = 1, day = 4\<rparr>
   \<and> \<not> datetime_less \<lparr>year = 2027, month = 1, day = 3\<rparr> \<lparr>year = 2026, month = 12, day = 28\<rparr>
   \<and> datetime_less \<lparr>year = 2027, month = 1, day = 3\<rparr> \<lparr>year = 2027, month = 1, day = 4\<rparr>"
  (is "\<forall>lib. ?P lib")
proof
  fix lib
  have p: "fromisoformat lib ''2026-12-28'' = Inr \<lparr>year = 2026, month = 12, day = 28\<rparr>" by code_simp
  have f: "first_loop lib 7 ''2026-12-28'' (nat 2) None [] = Inr [\<lparr>year = 2026, month = 12, day = 28\<rparr>, \<lparr>year = 2027, month = 1, day = 4\<rparr>]" by code_simp
  have e: "period_end 7 \<lparr>year = 2026, month = 12, day = 28\<rparr> = Inr \<lparr>year = 2027, month = 1, day = 3\<rparr>"
    by code_simp
  show "?P lib"
    using C1_contiguous_periods [OF _ p f, of 0] p f e by auto
qed

text \<open>
  C2 claims that every valid input yields exactly as many labels as periods. The dates of
  Python end at 9999-12-31: for 3000000 days per period, 2 periods and the start date
  2026-01-01 the second period would start after that day, and the method raises
  \<^verbatim>\<open>OverflowError\<close>.
\<close>

theorem C2_counterexample:
  "\<forall>lib. (1::int) \<le> 3000000 \<and> (0::int) \<le> 2
   \<and> fromisoformat lib ''2026-01-01'' = Inr \<lparr>year = 2026, month = 1, day = 1\<rparr>
   \<and> list_pay_periods lib 3000000 2 ''2026-01-01'' = Inl OverflowError"
  by (rule allI) code_simp

text \<open>
  C2, amended: for at least one day per period, a period count that is not negative and a
  start date that parses, and when the last period ends on 9999-12-31 or before (the
  ordinal of the start date plus \<open>n * days_per_pay_period - 1\<close> is at most 3652059), the
  method returns exactly \<open>n\<close> rows, the row \<open>i\<close> being the label of the period \<open>i\<close>,
  and the starts of the periods are in strictly ascending chronological order.
\<close>

theorem C2_count_and_order:
  assumes d: "1 \<le> dpp" and n: "0 \<le> n"
    and p: "fromisoformat lib s = Inr p"
    and r: "toordinal p + n * dpp - 1 \<le> MAXORDINAL"
  shows "\<exists>ws rows. first_loop lib dpp s (nat n) None [] = Inr ws \<and> list_pay_periods lib dpp n s = Inr rows
     \<and> length ws = nat n \<and> length rows = nat n
     \<and> (\<forall>i<nat n. \<exists>e. period_end dpp (ws ! i) = Inr e \<and> rows ! i = \<lparr>pay_period = item (ws ! i) e\<rparr>)
     \<and> (\<forall>i j. i < j \<and> j < nat n \<longrightarrow> datetime_less (ws ! i) (ws ! j))"
proof -
  have v: "valid_datetime p" using p by (rule fromisoformat_valid)
  have "\<exists>rows. list_pay_periods lib dpp n s = Inr rows"
  proof (cases "0 < n")
    case True
    have "periods_in_range p dpp (nat n)" using d True v r by (rule periods_in_range_forward)
    then show ?thesis by (simp add: list_pay_periods_parsed [OF p True])
  next
    case False
    then show ?thesis by (simp add: list_pay_periods_empty)
  qed
  then obtain rows where rows: "list_pay_periods lib dpp n s = Inr rows" ..
  from list_pay_periods_Inr [OF rows] obtain ws where
    ws: "first_loop lib dpp s (nat n) None [] = Inr ws" "length ws = nat n" "length rows = nat n"
    and all: "\<forall>i<nat n. valid_datetime (ws ! i)
          \<and> (\<exists>e. period_end dpp (ws ! i) = Inr e \<and> valid_datetime e
                \<and> rows ! i = \<lparr>pay_period = item (ws ! i) e\<rparr>)"
    by blast
  note fl = first_loop_Inr [OF p ws(1)]
  have "datetime_less (ws ! i) (ws ! j)" if ij: "i < j" "j < nat n" for i j
  proof -
    have i: "i < nat n" using ij by simp
    have "toordinal (ws ! i) = toordinal p + int i * dpp"
      using fl(1) i by (simp add: period_starts_nth toordinal_fromordinal)
    moreover have "toordinal (ws ! j) = toordinal p + int j * dpp"
      using fl(1) ij by (simp add: period_starts_nth toordinal_fromordinal)
    moreover have "int i * dpp < int j * dpp"
      using ij d by (intro mult_strict_right_mono) simp_all
    ultimately have "toordinal (ws ! i) < toordinal (ws ! j)" by simp
    moreover have "valid_datetime (ws ! i)" "valid_datetime (ws ! j)" using all i ij by blast+
    ultimately show ?thesis by (simp add: datetime_less_iff)
  qed
  then show ?thesis using rows ws all by blast
qed

theorem C2_witness:
  "\<forall>lib. (1::int) \<le> 7 \<and> (0::int) \<le> 2
   \<and> fromisoformat lib ''2026-12-28'' = Inr \<lparr>year = 2026, month = 12, day = 28\<rparr>
   \<and> toordinal \<lparr>year = 2026, month = 12, day = 28\<rparr> + 2 * 7 - 1 \<le> MAXORDINAL
   \<and> (\<exists>ws rows. first_loop lib 7 ''2026-12-28'' (nat 2) None [] = Inr ws
         \<and> list_pay_periods lib 7 2 ''2026-12-28'' = Inr rows
         \<and> length ws = nat 2 \<and> length rows = nat 2
         \<and> (\<forall>i<nat 2. \<exists>e. period_end 7 (ws ! i) = Inr e \<and> rows ! i = \<lparr>pay_period = item (ws ! i) e\<rparr>)
         \<and> (\<forall>i j. i < j \<and> j < nat 2 \<longrightarrow> datetime_less (ws ! i) (ws ! j)))"
  (is "\<forall>lib. ?P lib")
proof
  fix lib
  have p: "fromisoformat lib ''2026-12-28'' = Inr \<lparr>year = 2026, month = 12, day = 28\<rparr>" by code_simp
  have r: "toordinal \<lparr>year = 2026, month = 12, day = 28\<rparr> + 2 * 7 - 1 \<le> MAXORDINAL" by code_simp
  show "?P lib"
    using C2_count_and_order [OF _ _ p r] p r by simp
qed

text \<open>
  C3: for every valid input, the start that the iteration of the first loop computes for
  the period \<open>i\<close> is the closed form of the specification, the start date plus
  \<open>i * daysPerPeriod\<close> days, and its end is that start plus \<open>daysPerPeriod - 1\<close> days.
  The two formulations agree as wholes: the labels of the method are the result of the
  specification's \<open>generate\<close>, which fails exactly when the method does.
\<close>

theorem C3_iteration_is_closed_form:
  assumes "1 \<le> dpp" and "0 \<le> n" and p: "fromisoformat lib s = Inr p"
  shows "labels (list_pay_periods lib dpp n s) = spec_generate dpp n p
     \<and> (\<forall>ws i. first_loop lib dpp s (nat n) None [] = Inr ws \<and> i < nat n
           \<longrightarrow> spec_period_start p dpp i = Inr (ws ! i)
               \<and> spec_period_end p dpp i = period_end dpp (ws ! i))"
  using labels_list_pay_periods [OF p] first_loop_spec [OF p] by blast

theorem C3_witness:
  "\<forall>lib. (1::int) \<le> 14 \<and> (0::int) \<le> 3
   \<and> fromisoformat lib ''2026-01-01'' = Inr \<lparr>year = 2026, month = 1, day = 1\<rparr>
   \<and> first_loop lib 14 ''2026-01-01'' (nat 3) None [] = Inr [\<lparr>year = 2026, month = 1, day = 1\<rparr>, \<lparr>year = 2026, month = 1, day = 15\<rparr>, \<lparr>year = 2026, month = 1, day = 29\<rparr>]
   \<and> spec_period_start \<lparr>year = 2026, month = 1, day = 1\<rparr> 14 2 = Inr \<lparr>year = 2026, month = 1, day = 29\<rparr>
   \<and> spec_period_end \<lparr>year = 2026, month = 1, day = 1\<rparr> 14 2 = period_end 14 \<lparr>year = 2026, month = 1, day = 29\<rparr>
   \<and> period_end 14 \<lparr>year = 2026, month = 1, day = 29\<rparr> = Inr \<lparr>year = 2026, month = 2, day = 11\<rparr>
   \<and> labels (list_pay_periods lib 14 3 ''2026-01-01'') = spec_generate 14 3 \<lparr>year = 2026, month = 1, day = 1\<rparr>
   \<and> spec_generate 14 3 \<lparr>year = 2026, month = 1, day = 1\<rparr> = Inr [''e_0101_0114'', ''e_0115_0128'', ''e_0129_0211'']"
  (is "\<forall>lib. ?P lib")
proof
  fix lib
  have p: "fromisoformat lib ''2026-01-01'' = Inr \<lparr>year = 2026, month = 1, day = 1\<rparr>" by code_simp
  have f: "first_loop lib 14 ''2026-01-01'' (nat 3) None [] = Inr [\<lparr>year = 2026, month = 1, day = 1\<rparr>, \<lparr>year = 2026, month = 1, day = 15\<rparr>, \<lparr>year = 2026, month = 1, day = 29\<rparr>]" by code_simp
  have e: "period_end 14 \<lparr>year = 2026, month = 1, day = 29\<rparr> = Inr \<lparr>year = 2026, month = 2, day = 11\<rparr>"
    by code_simp
  have g: "spec_generate 14 3 \<lparr>year = 2026, month = 1, day = 1\<rparr> = Inr [''e_0101_0114'', ''e_0115_0128'', ''e_0129_0211'']"
    by code_simp
  have "2 < nat 3" by simp
  with C3_iteration_is_closed_form [OF _ _ p, of 14 3] f
  have "labels (list_pay_periods lib 14 3 ''2026-01-01'') = spec_generate 14 3 \<lparr>year = 2026, month = 1, day = 1\<rparr>
    \<and> spec_period_start \<lparr>year = 2026, month = 1, day = 1\<rparr> 14 2 = Inr ([\<lparr>year = 2026, month = 1, day = 1\<rparr>, \<lparr>year = 2026, month = 1, day = 15\<rparr>, \<lparr>year = 2026, month = 1, day = 29\<rparr>] ! 2)
    \<and> spec_period_end \<lparr>year = 2026, month = 1, day = 1\<rparr> 14 2 = period_end 14 ([\<lparr>year = 2026, month = 1, day = 1\<rparr>, \<lparr>year = 2026, month = 1, day = 15\<rparr>, \<lparr>year = 2026, month = 1, day = 29\<rparr>] ! 2)"
    by fastforce
  then show "?P lib" using p f e g by simp
qed

subsection \<open>Arguments that the specification rejects\<close>

text \<open>
  C4 claims that zero or a negative number of days per period fails with InvalidArgument.
  The method has no such check: for 0 days, 2 periods and the start date 2026-01-01 it
  returns two rows \<^verbatim>\<open>e_0101_1231\<close>, and for -7 days and the start date 2026-01-15 the rows
  \<^verbatim>\<open>e_0115_0107\<close> and \<^verbatim>\<open>e_0108_1231\<close>.
\<close>

theorem C4_counterexample:
  "\<forall>lib. (0::int) \<le> 0
   \<and> list_pay_periods lib 0 2 ''2026-01-01'' = Inr [\<lparr>pay_period = ''e_0101_1231''\<rparr>, \<lparr>pay_period = ''e_0101_1231''\<rparr>]
   \<and> list_pay_periods lib (-7) 2 ''2026-01-15'' = Inr [\<lparr>pay_period = ''e_0115_0107''\<rparr>, \<lparr>pay_period = ''e_0108_1231''\<rparr>]"
  by (rule allI) code_simp

text \<open>
  C4, amended: zero or a negative number of days per period is accepted and goes through
  the same formulas. When the start date parses and the earliest date computed (the start
  date plus \<open>n * days_per_pay_period - 1\<close> days) is not before 0001-01-01, the method
  returns \<open>nat n\<close> rows, the row \<open>i\<close> being the label of the closed-form start and end
  of the period \<open>i\<close>.
\<close>

theorem C4_nonpositive_days_accepted:
  assumes d: "dpp \<le> 0"
    and p: "fromisoformat lib s = Inr p"
    and r: "0 < toordinal p + n * dpp - 1"
  shows "\<exists>rows. list_pay_periods lib dpp n s = Inr rows \<and> length rows = nat n
     \<and> (\<forall>i<nat n. \<exists>b e. spec_period_start p dpp i = Inr b \<and> spec_period_end p dpp i = Inr e
           \<and> rows ! i = \<lparr>pay_period = item b e\<rparr>)"
proof -
  have v: "valid_datetime p" using p by (rule fromisoformat_valid)
  have "\<exists>rows. list_pay_periods lib dpp n s = Inr rows"
  proof (cases "0 < n")
    case True
    have "periods_in_range p dpp (nat n)" using d True v r by (rule periods_in_range_backward)
    then show ?thesis by (simp add: list_pay_periods_parsed [OF p True])
  next
    case False
    then show ?thesis by (simp add: list_pay_periods_empty)
  qed
  then obtain rows where rows: "list_pay_periods lib dpp n s = Inr rows" ..
  from list_pay_periods_Inr [OF rows] obtain ws where
    ws: "first_loop lib dpp s (nat n) None [] = Inr ws" "length rows = nat n"
    and all: "\<forall>i<nat n. valid_datetime (ws ! i)
          \<and> (\<exists>e. period_end dpp (ws ! i) = Inr e \<and> valid_datetime e
                \<and> rows ! i = \<lparr>pay_period = item (ws ! i) e\<rparr>)"
    by blast
  have "\<exists>b e. spec_period_start p dpp i = Inr b \<and> spec_period_end p dpp i = Inr e
           \<and> rows ! i = \<lparr>pay_period = item b e\<rparr>" if i: "i < nat n" for i
  proof -
    from all i obtain e where e: "period_end dpp (ws ! i) = Inr e" "rows ! i = \<lparr>pay_period = item (ws ! i) e\<rparr>"
      by blast
    show ?thesis
      using first_loop_spec [OF p ws(1) i] e by simp
  qed
  then show ?thesis using rows ws(2) by blast
qed

theorem C4_witness:
  "\<forall>lib. (-7::int) \<le> 0
   \<and> fromisoformat lib ''2026-01-15'' = Inr \<lparr>year = 2026, month = 1, day = 15\<rparr>
   \<and> 0 < toordinal \<lparr>year = 2026, month = 1, day = 15\<rparr> + 2 * (-7) - 1
   \<and> (\<exists>rows. list_pay_periods lib (-7) 2 ''2026-01-15'' = Inr rows \<and> length rows = nat 2
     \<and> (\<forall>i<nat 2. \<exists>b e. spec_period_start \<lparr>year = 2026, month = 1, day = 15\<rparr> (-7) i = Inr b
           \<and> spec_period_end \<lparr>year = 2026, month = 1, day = 15\<rparr> (-7) i = Inr e
           \<and> rows ! i = \<lparr>pay_period = item b e\<rparr>))"
  (is "\<forall>lib. ?P lib")
proof
  fix lib
  have p: "fromisoformat lib ''2026-01-15'' = Inr \<lparr>year = 2026, month = 1, day = 15\<rparr>" by code_simp
  have r: "0 < toordinal \<lparr>year = 2026, month = 1, day = 15\<rparr> + 2 * (-7) - 1" by code_simp
  show "?P lib"
    using C4_nonpositive_days_accepted [OF _ p r] p r by simp
qed

text \<open>
  C5 claims that a negative period count fails with InvalidArgument. It does not: for
  14 days per period, the count -1 and the start date 2026-01-01 the method returns the
  empty sequence.
\<close>

theorem C5_counterexample:
  "\<forall>lib. list_pay_periods lib 14 (-1) ''2026-01-01'' = Inr []
   \<and> \<not> (\<exists>e. list_pay_periods lib 14 (-1) ''2026-01-01'' = Inl e)"
  by (simp add: list_pay_periods_def)

text \<open>
  C5, amended: for every negative period count the method returns the empty sequence and
  raises no error, whatever the other arguments are (the range of a negative number is
  empty).
\<close>

theorem C5_negative_count_is_empty:
  "n < 0 \<Longrightarrow> list_pay_periods lib dpp n s = Inr []"
  by (simp add: list_pay_periods_def)

theorem C5_witness:
  "\<forall>lib. (-1::int) < 0 \<and> list_pay_periods lib 14 (-1) ''2026-01-01'' = Inr []"
  using C5_negative_count_is_empty [where n = "-1" and dpp = 14 and s = "''2026-01-01''"] by simp

text \<open>
  C6 claims that a start date that cannot be parsed always fails. The string 2026-02-30
  passes the pattern of the command line and names no date, yet with a period count of 0
  the method returns the empty sequence.
\<close>

theorem C6_counterexample:
  "\<forall>lib. fromisoformat lib ''2026-02-30'' = Inl ValueError
   \<and> datetime_string ''2026-02-30'' = Inr ''2026-02-30''
   \<and> list_pay_periods lib 14 0 ''2026-02-30'' = Inr []"
  by (rule allI) code_simp

text \<open>
  C6, amended: when the period count is at least 1 and the start date string is not a
  parseable calendar date (the parser raises on it), the method fails with
  \<^verbatim>\<open>ValueError\<close>, the error of the parser. When the period count is zero or negative the
  start date is never parsed, and the method returns the empty sequence.
\<close>

theorem C6_unparseable_start:
  "(0 < n \<longrightarrow> fromisoformat lib s = Inl e
      \<longrightarrow> e = ValueError \<and> list_pay_periods lib dpp n s = Inl ValueError)
   \<and> (n \<le> 0 \<longrightarrow> first_loop lib dpp s (nat n) None [] = Inr [] \<and> list_pay_periods lib dpp n s = Inr [])"
  using fromisoformat_error [of lib s e] list_pay_periods_error [of n lib s e dpp]
    list_pay_periods_empty [of n lib dpp s]
  by simp

theorem C6_witness:
  "\<forall>lib. datetime_string ''2026-02-30'' = Inr ''2026-02-30''
   \<and> fromisoformat lib ''2026-02-30'' = Inl ValueError
   \<and> (0::int) < 1 \<and> list_pay_periods lib 14 1 ''2026-02-30'' = Inl ValueError
   \<and> (0::int) \<le> 0 \<and> first_loop lib 14 ''2026-02-30'' (nat 0) None [] = Inr []
   \<and> list_pay_periods lib 14 0 ''2026-02-30'' = Inr []"
  (is "\<forall>lib. ?P lib")
proof
  fix lib
  have f: "fromisoformat lib ''2026-02-30'' = Inl ValueError" by code_simp
  have d: "datetime_string ''2026-02-30'' = Inr ''2026-02-30''" by code_simp
  show "?P lib"
    using C6_unparseable_start [where n = 1 and lib = lib and s = "''2026-02-30''" and e = ValueError and dpp = 14]
      C6_unparseable_start [where n = 0 and lib = lib and s = "''2026-02-30''" and dpp = 14]
      f d
    by simp
qed

subsection \<open>No periods\<close>

text \<open>
  C7: with a period count of 0 the method returns the empty sequence and raises no
  error, for every number of days per period and every start date string.
\<close>

theorem C7_zero_periods: "list_pay_periods lib dpp 0 s = Inr []"
  by (simp add: list_pay_periods_def)

text \<open>
  C10: whenever the period count is zero or negative, the first loop does not run, so the
  start date string is never parsed: the method returns the empty sequence for every
  string, also one that is not a date at all.
\<close>

theorem C10_no_parse_without_periods:
  "n \<le> 0 \<Longrightarrow> first_loop lib dpp s (nat n) None [] = Inr [] \<and> list_pay_periods lib dpp n s = Inr []"
  by (simp add: list_pay_periods_def)

theorem C10_witness:
  "(\<forall>lib. (-3::int) \<le> 0
      \<and> first_loop lib 14 ''not a date'' (nat (-3)) None [] = Inr []
      \<and> list_pay_periods lib 14 (-3) ''not a date'' = Inr [])
   \<and> fromisoformat no_other_forms ''not a date'' = Inl ValueError"
proof -
  have "fromisoformat no_other_forms ''not a date'' = Inl ValueError" by code_simp
  then show ?thesis
    using C10_no_parse_without_periods [where n = "-3" and dpp = 14 and s = "''not a date''"]
    by simp
qed

subsection \<open>The labels\<close>

text \<open>
  C8: for 7 days per period, 2 periods and the start date 2026-12-28 the method returns
  exactly the labels \<^verbatim>\<open>e_1228_0103\<close> and \<^verbatim>\<open>e_0104_0110\<close>: the first period runs from December
  into January within one label, and no year is written.
\<close>

theorem C8_year_boundary_scenario:
  "list_pay_periods lib 7 2 ''2026-12-28'' =
     Inr [\<lparr>pay_period = ''e_1228_0103''\<rparr>, \<lparr>pay_period = ''e_0104_0110''\<rparr>]"
  by code_simp

text \<open>
  C9: every label that the method returns matches the pattern \<^verbatim>\<open>e_\d{4}_\d{4}\<close>. It is
  \<^verbatim>\<open>e_\<close>, the month and the day of the start of its period, two digits each and padded
  with a zero, an underscore, and the month and the day of the end of the period in the
  same form.
\<close>

theorem C9_label_pattern:
  assumes "list_pay_periods lib dpp n s = Inr rows" "i < length rows"
  shows "label_pattern (pay_period (rows ! i))
     \<and> (\<exists>ws e. first_loop lib dpp s (nat n) None [] = Inr ws \<and> i < length ws
           \<and> period_end dpp (ws ! i) = Inr e
           \<and> pay_period (rows ! i) = ''e_'' @ two_digits (month (ws ! i)) @ two_digits (day (ws ! i))
                 @ ''_'' @ two_digits (month e) @ two_digits (day e))"
proof -
  from list_pay_periods_Inr [OF assms(1)] obtain ws where
    ws: "first_loop lib dpp s (nat n) None [] = Inr ws" "length ws = nat n" "length rows = nat n"
    and all: "\<forall>i<nat n. valid_datetime (ws ! i)
          \<and> (\<exists>e. period_end dpp (ws ! i) = Inr e \<and> valid_datetime e
                \<and> rows ! i = \<lparr>pay_period = item (ws ! i) e\<rparr>)"
    by blast
  from all assms(2) ws obtain e where
    e: "valid_datetime (ws ! i)" "period_end dpp (ws ! i) = Inr e" "valid_datetime e"
       "rows ! i = \<lparr>pay_period = item (ws ! i) e\<rparr>"
    by auto
  have "label_pattern (pay_period (rows ! i))"
    using e item_pattern by simp
  moreover have "pay_period (rows ! i) = ''e_'' @ two_digits (month (ws ! i)) @ two_digits (day (ws ! i))
                 @ ''_'' @ two_digits (month e) @ two_digits (day e)"
    using e item_format [of "ws ! i" e] by (simp add: format_MMDD_def)
  ultimately show ?thesis using ws e assms(2) by auto
qed

theorem C9_witness:
  "\<forall>lib. list_pay_periods lib 14 3 ''2026-01-01'' =
     Inr [\<lparr>pay_period = ''e_0101_0114''\<rparr>, \<lparr>pay_period = ''e_0115_0128''\<rparr>, \<lparr>pay_period = ''e_0129_0211''\<rparr>]
   \<and> label_pattern ''e_0129_0211''
   \<and> (\<exists>ws e. first_loop lib 14 ''2026-01-01'' (nat 3) None [] = Inr ws \<and> 2 < length ws
           \<and> period_end 14 (ws ! 2) = Inr e
           \<and> ''e_0129_0211'' = ''e_'' @ two_digits (month (ws ! 2)) @ two_digits (day (ws ! 2))
                 @ ''_'' @ two_digits (month e) @ two_digits (day e))"
  (is "\<forall>lib. ?P lib")
proof
  fix lib
  have l: "list_pay_periods lib 14 3 ''2026-01-01'' =
     Inr [\<lparr>pay_period = ''e_0101_0114''\<rparr>, \<lparr>pay_period = ''e_0115_0128''\<rparr>, \<lparr>pay_period = ''e_0129_0211''\<rparr>]"
    by code_simp
  show "?P lib"
    using C9_label_pattern [OF l, of 2] l by simp
qed

end
